theory Spec2Isabelle
  imports Main "HOL-Library.Sublist"
begin

section \<open>The server-side action dispatcher (packages/rpc/src/server/action.ts)\<close>

text \<open>
  A shallow embedding of \<^verbatim>\<open>RpcServerAction\<close>. The dispatcher is single-threaded: every
  inbound message and every callback of a subscription runs to completion, so each of
  them is a function from the state to the state. The frames written through
  \<^verbatim>\<open>response.reply\<close>, \<^verbatim>\<open>response.composite\<close> and \<^verbatim>\<open>response.error\<close> are appended to the
  output of the state, in the order of the calls. Collaborators outside the file (the
  codec, the injector, the controller method, rxjs) appear as explicit inputs.
\<close>

subsection \<open>Values, errors, frames\<close>

type_synonym val = string

text \<open>\<^verbatim>\<open>ValidationFailedItem\<close>: path, code, message.\<close>

type_synonym validation_failed_item = "string \<times> string \<times> string"

text \<open>What a \<^verbatim>\<open>throw\<close> carries: \<^verbatim>\<open>new Error(message)\<close> or \<^verbatim>\<open>new ValidationError(errors)\<close>.\<close>

datatype error = Error string | ValidationError "validation_failed_item list"

datatype rpc_types =
    Action
  | ActionType
  | ActionObservableSubscribe
  | ActionObservableUnsubscribe
  | ActionObservableSubjectUnsubscribe
  | ResponseActionCollectionUnsubscribe
  | ResponseActionType
  | ResponseActionSimple
  | ResponseEntity
  | ResponseActionObservable
  | ResponseActionObservableNext
  | ResponseActionObservableError
  | ResponseActionObservableComplete
  | ResponseActionCollection
  | ResponseActionCollectionModel
  | ResponseActionCollectionState
  | ResponseActionCollectionSet
  | ResponseActionCollectionChange
  | ResponseActionCollectionAdd
  | ResponseActionCollectionRemove
  | RpcTypes_Error

datatype action_observable_types = observable_type | subject_type | behaviorSubject_type

subsection \<open>Schemas\<close>

text \<open>
  The class a property is declared with: its name (\<^verbatim>\<open>getClassName\<close>) and what
  \<^verbatim>\<open>isPrototypeOfBase\<close> answers for the three wrapper bases.
\<close>

datatype class_ref =
  ClassRef (getClassName: string) (extendsObservable: bool) (extendsCollection: bool)
    (extendsPromise: bool)

datatype property_schema =
  PropertySchema (pname: string) (ptype: string) (isOptional: bool)
    (propClassType: "class_ref option") (templateArgs: "property_schema list")

text \<open>A \<^verbatim>\<open>ClassSchema\<close> is the list of its registered properties.\<close>

type_synonym class_schema = "property_schema list"

definition createClassSchema :: class_schema where
  "createClassSchema = []"

definition registerProperty :: "class_schema \<Rightarrow> property_schema \<Rightarrow> class_schema" where
  "registerProperty cs p = cs @ [p]"

text \<open>
  \<^verbatim>\<open>getProperty\<close> throws when the schema has no property of that name. The message names the
  class of the schema, a dot and the property; the schemata it is called on here come from
  \<^verbatim>\<open>createClassSchema()\<close>, whose class has the empty name.
\<close>

definition getProperty :: "class_schema \<Rightarrow> string \<Rightarrow> error + property_schema" where
  "getProperty cs n =
     (case find (\<lambda>p. pname p = n) cs of
        None \<Rightarrow> Inl (Error (''Property .'' @ n @ '' not found''))
      | Some p \<Rightarrow> Inr p)"

text \<open>\<^verbatim>\<open>resultProperty.name = 'v'; resultProperty.isOptional = true\<close>.\<close>

definition as_v :: "property_schema \<Rightarrow> property_schema" where
  "as_v p = PropertySchema ''v'' (ptype p) True (propClassType p) (templateArgs p)"

text \<open>The schema \<^verbatim>\<open>{ id: number }\<close> of a subscription id.\<close>

definition rpcActionObservableSubscribeId :: class_schema where
  "rpcActionObservableSubscribeId = [PropertySchema ''id'' ''number'' False None []]"

text \<open>
  \<^verbatim>\<open>ActionTypes\<close>. The two compiled functions \<^verbatim>\<open>parametersDeserialize\<close> and
  \<^verbatim>\<open>parametersValidate\<close> are kept as the schema they are compiled from; the schema
  system that runs them is an input of the call.
\<close>

record action_types =
  parameters :: "property_schema list"
  parameterSchema :: class_schema
  resultSchema :: class_schema
  parametersDeserialize :: class_schema
  parametersValidate :: class_schema
  observableNextSchema :: class_schema
  collectionSchema :: "class_schema option"

text \<open>
  A registered controller class, as the decorators describe it: its name, its actions
  (\<^verbatim>\<open>getActions\<close>), the parameters of a method (\<^verbatim>\<open>getActionParameters\<close>) and the declared
  return property of a method (\<^verbatim>\<open>getClassSchema(classType).getMethod(method)\<close>).
\<close>

record class_type =
  className :: string
  getActions :: "string list"
  getActionParameters :: "string \<Rightarrow> property_schema list"
  getMethod :: "string \<Rightarrow> property_schema"

text \<open>\<^verbatim>\<open>getClassPropertyName\<close> of @deepkit/core: the class name, two colons, the property.\<close>

definition getClassPropertyName :: "class_type \<Rightarrow> string \<Rightarrow> string" where
  "getClassPropertyName ct m = className ct @ ''::'' @ m"

subsection \<open>Results of a controller method, notifications, collection events\<close>

datatype notification = Next val | Failed error | Complete

text \<open>
  The awaited result of a controller method: what each \<^verbatim>\<open>instanceof\<close> test of
  \<^verbatim>\<open>handleAction\<close> answers, the value that is serialised, what the object delivers
  synchronously inside \<^verbatim>\<open>subscribe\<close> (a \<^verbatim>\<open>BehaviorSubject\<close> delivers its current value),
  and for a collection its \<^verbatim>\<open>model\<close>, \<^verbatim>\<open>state\<close> and \<^verbatim>\<open>all()\<close>.
\<close>

record action_result =
  instEntitySubject :: bool
  instCollection :: bool
  instObservable :: bool
  instSubject :: bool
  instBehaviorSubject :: bool
  result_v :: val
  onSubscribe :: "notification list"
  coll_model :: val
  coll_state :: val
  coll_all :: "val list"

text \<open>\<^verbatim>\<open>CollectionEvent\<close>: the \<^verbatim>\<open>type\<close> string with the \<^verbatim>\<open>items\<close> or \<^verbatim>\<open>ids\<close> it carries.\<close>

record collection_event =
  ev_type :: string
  ev_items :: "val list"
  ev_ids :: "val list"

subsection \<open>Frames\<close>

datatype payload =
    BodyV val
  | BodyItems "val list"
  | BodyNext nat val
  | BodyId nat
  | BodyError error "nat option"
  | BodyObservable action_observable_types
  | BodyModel val
  | BodyState val
  | BodyRemove "val list"
  | BodyActionType "property_schema list" property_schema

datatype contents = Single payload | Composite "(rpc_types \<times> payload) list"

record frame =
  fid :: nat
  ftype :: rpc_types
  fbody :: contents

subsection \<open>The dispatcher's state\<close>

text \<open>The object \<^verbatim>\<open>{ active: boolean, sub?: Subscription }\<close> shared by the table and the callbacks.\<close>

record sub_obj =
  active :: bool
  sub :: "nat option"

record obs_entry =
  observable :: action_result
  subscriptions :: "nat \<rightharpoonup> nat"
  entryNextSchema :: class_schema

text \<open>
  The variables the closure \<^verbatim>\<open>unsubscribe\<close> of a collection entry captures: the address
  of \<^verbatim>\<open>unsubscribed\<close>, the subscription \<^verbatim>\<open>eventsSub\<close> and the collection.
\<close>

record coll_entry =
  flagOf :: nat
  eventsSub :: nat
  collectionOf :: action_result

text \<open>
  The three groups of callbacks the file passes to \<^verbatim>\<open>subscribe\<close>, with the variables
  each captures: the observer of a client subscription (message id, \<^verbatim>\<open>body.id\<close>, address of
  \<^verbatim>\<open>sub\<close>), the observer of the server's own subscription to a subject (message id), and
  the batch handler of a collection (message id, address of \<^verbatim>\<open>unsubscribed\<close>, cache key
  of \<^verbatim>\<open>types\<close>).
\<close>

datatype closure =
    SubscriberCb nat nat nat
  | SubjectCb nat
  | CollectionCb nat nat string

text \<open>An rxjs \<^verbatim>\<open>Subscription\<close>: the observer it feeds and whether it is closed.\<close>

record rx_subscription =
  observer :: closure
  closed :: bool

text \<open>
  The fields of \<^verbatim>\<open>RpcServerAction\<close>, the store of the objects its closures share
  (\<^verbatim>\<open>subObjs\<close>, \<^verbatim>\<open>unsubscribedVars\<close>; an address is an index), the rxjs subscriptions created
  so far (a handle is an index), the frames written, the controller methods invoked and
  the collections on which \<^verbatim>\<open>unsubscribe()\<close> was called.
\<close>

record state =
  controllers :: "string \<rightharpoonup> class_type"
  cachedActionsTypes :: "string \<rightharpoonup> action_types"
  observableSubjects :: "nat \<rightharpoonup> nat"
  collections :: "nat \<rightharpoonup> coll_entry"
  observables :: "nat \<rightharpoonup> obs_entry"
  subObjs :: "sub_obj list"
  unsubscribedVars :: "bool list"
  rx :: "rx_subscription list"
  out :: "frame list"
  invoked :: "(string \<times> string \<times> val list) list"
  collectionsClosed :: "action_result list"

definition init :: "(string \<rightharpoonup> class_type) \<Rightarrow> state" where
  "init cs = \<lparr>controllers = cs, cachedActionsTypes = Map.empty, observableSubjects = Map.empty,
     collections = Map.empty, observables = Map.empty, subObjs = [], unsubscribedVars = [],
     rx = [], out = [], invoked = [], collectionsClosed = []\<rparr>"

subsection \<open>The response channel\<close>

definition reply :: "nat \<Rightarrow> rpc_types \<Rightarrow> payload \<Rightarrow> state \<Rightarrow> state" where
  "reply i t b s = s\<lparr>out := out s @ [\<lparr>fid = i, ftype = t, fbody = Single b\<rparr>]\<rparr>"

definition composite :: "nat \<Rightarrow> rpc_types \<Rightarrow> (rpc_types \<times> payload) list \<Rightarrow> state \<Rightarrow> state" where
  "composite i t bs s = s\<lparr>out := out s @ [\<lparr>fid = i, ftype = t, fbody = Composite bs\<rparr>]\<rparr>"

definition response_error :: "nat \<Rightarrow> error \<Rightarrow> state \<Rightarrow> state" where
  "response_error i e s = reply i RpcTypes_Error (BodyError e None) s"

subsection \<open>Inbound messages and the collaborators of a call\<close>

text \<open>
  An inbound message: its id, its type, and what \<^verbatim>\<open>parseBody\<close> yields for each schema
  the file parses it with (\<^verbatim>\<open>rpcActionType\<close>, \<^verbatim>\<open>types.parameterSchema\<close>,
  \<^verbatim>\<open>rpcActionObservableSubscribeId\<close>); \<^verbatim>\<open>Inl\<close> is a throw.
\<close>

record rpc_message =
  mid :: nat
  mtype :: rpc_types
  parseActionType :: "error + string \<times> string"
  parseArgs :: "class_schema \<Rightarrow> error + val list"
  parseSubscribeId :: "error + nat"

text \<open>
  What the collaborators answer during one call: the injector, the compiled decoder and
  validator of the schema system, and the controller method (awaited; \<^verbatim>\<open>Inl\<close> is a throw
  or a rejected promise).
\<close>

record call_env =
  injector_get :: "class_type \<Rightarrow> error + unit"
  getXToClassFunction :: "class_schema \<Rightarrow> val list \<Rightarrow> error + val list"
  jitValidate :: "class_schema \<Rightarrow> val list \<Rightarrow> validation_failed_item list"
  invoke :: "class_type \<Rightarrow> string \<Rightarrow> val list \<Rightarrow> error + action_result"

subsection \<open>loadTypes\<close>

definition newline :: string where
  "newline = [CHR 0x0A]"

text \<open>The message of the error thrown at lines 117-124.\<close>

definition missingGenericMessage :: "class_type \<Rightarrow> string \<Rightarrow> string \<Rightarrow> string" where
  "missingGenericMessage classType method cn =
     ''Your method '' @ getClassPropertyName classType method @ '' returns '' @ cn
     @ '' and you have not specified a generic type using @t.generic() decorator. ''
     @ ''Please define the generic type of your '' @ cn
     @ ''<T>, e.g. @t.generic(T), where T is your actual type. Any is now used, which is much slower to serialize and produces no class instances.''
     @ newline @ ''Example:''
     @ newline @ ''   @t.generic(t.string)''
     @ newline @ ''   '' @ method @ ''(): '' @ cn @ ''<string> {}''
     @ newline @ ''   @t.generic(MyModel)''
     @ newline @ ''   '' @ method @ ''(): '' @ cn @ ''<MyModel> {}''"

text \<open>Lines 109-127: a wrapper type is replaced by its first template argument.\<close>

definition unwrapResult :: "class_type \<Rightarrow> string \<Rightarrow> property_schema \<Rightarrow> error + property_schema" where
  "unwrapResult classType method resultProperty =
     (case propClassType resultProperty of
        None \<Rightarrow> Inr resultProperty
      | Some c \<Rightarrow>
          if extendsObservable c \<or> extendsCollection c \<or> extendsPromise c then
            (case templateArgs resultProperty of
               [] \<Rightarrow> Inl (Error (missingGenericMessage classType method (getClassName c)))
             | generic # _ \<Rightarrow> Inr generic)
          else Inr resultProperty)"

definition loadTypes :: "string \<Rightarrow> string \<Rightarrow> state \<Rightarrow> error + action_types \<times> state" where
  "loadTypes controller method s =
     (let cacheId = controller @ ''!'' @ method in
      case cachedActionsTypes s cacheId of
        Some types \<Rightarrow> Inr (types, s)
      | None \<Rightarrow>
          (case controllers s controller of
             None \<Rightarrow> Inl (Error (''No controller registered for id '' @ controller))
           | Some classType \<Rightarrow>
               if method \<notin> set (getActions classType) then
                 Inl (Error (''Action unknown '' @ method))
               else
                 (let params = getActionParameters classType method;
                      argSchema = foldl registerProperty createClassSchema params
                  in case unwrapResult classType method (getMethod classType method) of
                       Inl e \<Rightarrow> Inl e
                     | Inr unwrapped \<Rightarrow>
                         (let resultProperty = as_v unwrapped;
                              types = \<lparr>parameters = params,
                                parameterSchema = [PropertySchema ''args'' ''class'' False None argSchema],
                                resultSchema = registerProperty createClassSchema resultProperty,
                                parametersDeserialize = argSchema,
                                parametersValidate = argSchema,
                                observableNextSchema =
                                  registerProperty rpcActionObservableSubscribeId resultProperty,
                                collectionSchema = None\<rparr>
                          in Inr (types,
                               s\<lparr>cachedActionsTypes := (cachedActionsTypes s)(cacheId \<mapsto> types)\<rparr>)))))"

text \<open>
  The handlers are \<^verbatim>\<open>async\<close>: a handler returns \<^verbatim>\<open>(None, s)\<close> when its promise resolves
  and \<^verbatim>\<open>(Some e, s)\<close> when an exception leaves it (its promise rejects), with the state
  it has reached.
\<close>

definition handleActionTypes :: "rpc_message \<Rightarrow> state \<Rightarrow> error option \<times> state" where
  "handleActionTypes message s =
     (case parseActionType message of
        Inl e \<Rightarrow> (Some e, s)
      | Inr (controller, method) \<Rightarrow>
          (case loadTypes controller method s of
             Inl e \<Rightarrow> (Some e, s)
           | Inr (types, s1) \<Rightarrow>
               (case getProperty (resultSchema types) ''v'' of
                  Inl e \<Rightarrow> (Some e, s1)
                | Inr v \<Rightarrow>
                    (None, reply (mid message) ResponseActionType
                       (BodyActionType (parameters types) v) s1))))"

subsection \<open>Subscriptions (the contract of rxjs) and the callbacks of the file\<close>

text \<open>
  The observers of lines 162-175 (a client subscription; only \<^verbatim>\<open>next\<close> tests
  \<^verbatim>\<open>sub.active\<close>) and of lines 293-305 (the subscription the server opens on a subject).
  The handler of a collection receives batches, not notifications.
\<close>

fun run_observer :: "closure \<Rightarrow> notification \<Rightarrow> state \<Rightarrow> state" where
  "run_observer (SubscriberCb i b a) (Next v) s =
     (if a < length (subObjs s) \<and> active (subObjs s ! a)
      then reply i ResponseActionObservableNext (BodyNext b v) s else s)"
| "run_observer (SubscriberCb i b a) (Failed e) s =
     reply i ResponseActionObservableError (BodyError e (Some b)) s"
| "run_observer (SubscriberCb i b a) Complete s =
     reply i ResponseActionObservableComplete (BodyId b) s"
| "run_observer (SubjectCb i) (Next v) s =
     reply i ResponseActionObservableNext (BodyNext i v) s"
| "run_observer (SubjectCb i) (Failed e) s =
     reply i ResponseActionObservableError (BodyError e (Some i)) s"
| "run_observer (SubjectCb i) Complete s =
     reply i ResponseActionObservableComplete (BodyId i) s"
| "run_observer (CollectionCb i f k) n s = s"

text \<open>Lines 260-273: the sub-frame of one event of a batch.\<close>

definition event_frames :: "val list \<Rightarrow> val \<Rightarrow> collection_event \<Rightarrow> (rpc_types \<times> payload) list" where
  "event_frames all_now state_now event =
     (if ev_type event = ''add'' then [(ResponseActionCollectionAdd, BodyItems (ev_items event))]
      else if ev_type event = ''remove'' then
        [(ResponseActionCollectionRemove, BodyRemove (ev_ids event))]
      else if ev_type event = ''set'' then [(ResponseActionCollectionSet, BodyItems all_now)]
      else if ev_type event = ''state'' then [(ResponseActionCollectionState, BodyState state_now)]
      else [])"

text \<open>
  Lines 256-275: the handler given to \<^verbatim>\<open>collectForMicrotask\<close>, called with the events of
  one tick; \<^verbatim>\<open>collection.all()\<close> and \<^verbatim>\<open>collection.state\<close> are read when it runs.
\<close>

fun run_batch :: "closure \<Rightarrow> collection_event list \<Rightarrow> val list \<Rightarrow> val \<Rightarrow> state \<Rightarrow> state" where
  "run_batch (CollectionCb i f k) events all_now state_now s =
     (if f < length (unsubscribedVars s) \<and> \<not> unsubscribedVars s ! f
      then composite i ResponseActionCollectionChange
             (concat (map (event_frames all_now state_now) events)) s
      else s)"
| "run_batch (SubscriberCb i b a) events all_now state_now s = s"
| "run_batch (SubjectCb i) events all_now state_now s = s"

definition rx_close :: "nat \<Rightarrow> state \<Rightarrow> state" where
  "rx_close h s = s\<lparr>rx := (rx s)[h := (rx s ! h)\<lparr>closed := True\<rparr>]\<rparr>"

text \<open>
  rxjs delivers a notification to an open subscription only; an error or a completion
  closes the subscription.
\<close>

definition rx_notify :: "nat \<Rightarrow> notification \<Rightarrow> state \<Rightarrow> state" where
  "rx_notify h n s =
     (if h < length (rx s) \<and> \<not> closed (rx s ! h)
      then run_observer (observer (rx s ! h)) n
             (case n of Next v \<Rightarrow> s | Failed e \<Rightarrow> rx_close h s | Complete \<Rightarrow> rx_close h s)
      else s)"

text \<open>The notifications a source delivers one after the other to the subscription \<open>h\<close>.\<close>

definition deliver :: "nat \<Rightarrow> notification list \<Rightarrow> state \<Rightarrow> state" where
  "deliver h ns s = foldl (\<lambda>s' n. rx_notify h n s') s ns"

text \<open>
  \<^verbatim>\<open>subscribe\<close>: a new subscription, to which the source delivers \<open>sync\<close> before
  \<^verbatim>\<open>subscribe\<close> returns its handle.
\<close>

definition rx_subscribe :: "closure \<Rightarrow> notification list \<Rightarrow> state \<Rightarrow> nat \<times> state" where
  "rx_subscribe cb sync s =
     (let h = length (rx s) in
      (h, deliver h sync (s\<lparr>rx := rx s @ [\<lparr>observer = cb, closed = False\<rparr>]\<rparr>)))"

subsection \<open>handle: the control messages\<close>

text \<open>Lines 153-178.\<close>

definition handleSubscribe :: "rpc_message \<Rightarrow> notification list \<Rightarrow> state \<Rightarrow> error option \<times> state" where
  "handleSubscribe message sync s =
     (case observables s (mid message) of
        None \<Rightarrow> (None, response_error (mid message) (Error ''No observable found'') s)
      | Some entry \<Rightarrow>
          (case parseSubscribeId message of
             Inl e \<Rightarrow> (Some e, s)
           | Inr body_id \<Rightarrow>
               (case subscriptions entry body_id of
                  Some a \<Rightarrow>
                    (None, response_error (mid message) (Error ''Subscription already created'') s)
                | None \<Rightarrow>
                    (let a = length (subObjs s);
                         s1 = s\<lparr>subObjs := subObjs s @ [\<lparr>active = True, sub = None\<rparr>],
                                observables := (observables s)(mid message \<mapsto>
                                  entry\<lparr>subscriptions := (subscriptions entry)(body_id \<mapsto> a)\<rparr>)\<rparr>;
                         (h, s2) = rx_subscribe (SubscriberCb (mid message) body_id a) sync s1
                     in (None, s2\<lparr>subObjs := (subObjs s2)[a := (subObjs s2 ! a)\<lparr>sub := Some h\<rparr>]\<rparr>)))))"

text \<open>
  Lines 180-186, with the body of the closure \<^verbatim>\<open>unsubscribe\<close> of lines 278-282:
  set \<^verbatim>\<open>unsubscribed\<close>, cancel \<^verbatim>\<open>eventsSub\<close>, \<^verbatim>\<open>collection.unsubscribe()\<close>.
\<close>

definition handleCollectionUnsubscribe :: "rpc_message \<Rightarrow> state \<Rightarrow> error option \<times> state" where
  "handleCollectionUnsubscribe message s =
     (case collections s (mid message) of
        None \<Rightarrow> (None, response_error (mid message) (Error ''No collection found'') s)
      | Some c \<Rightarrow>
          (let s1 = s\<lparr>unsubscribedVars := (unsubscribedVars s)[flagOf c := True]\<rparr>;
               s2 = rx_close (eventsSub c) s1;
               s3 = s2\<lparr>collectionsClosed := collectionsClosed s2 @ [collectionOf c]\<rparr>
           in (None, s3\<lparr>collections := (collections s3)(mid message := None)\<rparr>)))"

text \<open>Lines 188-200.\<close>

definition handleUnsubscribe :: "rpc_message \<Rightarrow> state \<Rightarrow> error option \<times> state" where
  "handleUnsubscribe message s =
     (case observables s (mid message) of
        None \<Rightarrow> (None, response_error (mid message) (Error ''No observable found'') s)
      | Some entry \<Rightarrow>
          (case parseSubscribeId message of
             Inl e \<Rightarrow> (Some e, s)
           | Inr body_id \<Rightarrow>
               (case subscriptions entry body_id of
                  None \<Rightarrow> (None, response_error (mid message) (Error ''No subscription found'') s)
                | Some a \<Rightarrow>
                    (let s1 = s\<lparr>subObjs := (subObjs s)[a := (subObjs s ! a)\<lparr>active := False\<rparr>]\<rparr>;
                         s2 = (case (if a < length (subObjs s1) then sub (subObjs s1 ! a) else None) of
                                 Some h \<Rightarrow> rx_close h s1
                               | None \<Rightarrow> s1)
                     in (None, s2\<lparr>observables := (observables s2)(mid message \<mapsto>
                           entry\<lparr>subscriptions := (subscriptions entry)(body_id := None)\<rparr>)\<rparr>)))))"

text \<open>Lines 202-207.\<close>

definition handleSubjectUnsubscribe :: "rpc_message \<Rightarrow> state \<Rightarrow> error option \<times> state" where
  "handleSubjectUnsubscribe message s =
     (case observableSubjects s (mid message) of
        None \<Rightarrow> (None, response_error (mid message) (Error ''No observable found'') s)
      | Some h \<Rightarrow> (None, rx_close h s))"

text \<open>
  \<^verbatim>\<open>handle\<close>: the \<^verbatim>\<open>switch\<close> on the message type. \<open>sync\<close> is what the observable
  delivers inside \<^verbatim>\<open>subscribe\<close> when the message subscribes.
\<close>

definition handle :: "rpc_message \<Rightarrow> notification list \<Rightarrow> state \<Rightarrow> error option \<times> state" where
  "handle message sync s =
     (case mtype message of
        ActionObservableSubscribe \<Rightarrow> handleSubscribe message sync s
      | ResponseActionCollectionUnsubscribe \<Rightarrow> handleCollectionUnsubscribe message s
      | ActionObservableUnsubscribe \<Rightarrow> handleUnsubscribe message s
      | ActionObservableSubjectUnsubscribe \<Rightarrow> handleSubjectUnsubscribe message s
      | _ \<Rightarrow> (None, s))"

subsection \<open>handleAction\<close>

text \<open>
  Lines 238-244. \<^verbatim>\<open>types\<close> is the object stored in the cache under \<open>cacheId\<close>, so the
  assignment to \<^verbatim>\<open>types.collectionSchema\<close> is an update of the cache entry; the empty schema
  is assigned before \<^verbatim>\<open>getProperty\<close> can throw.
\<close>

definition ensureCollectionSchema :: "string \<Rightarrow> action_types \<Rightarrow> state \<Rightarrow> error option \<times> state" where
  "ensureCollectionSchema cacheId types s =
     (case collectionSchema types of
        Some cs \<Rightarrow> (None, s)
      | None \<Rightarrow>
          (case getProperty (resultSchema types) ''v'' of
             Inl e \<Rightarrow>
               (Some e, s\<lparr>cachedActionsTypes := (cachedActionsTypes s)(cacheId \<mapsto>
                  types\<lparr>collectionSchema := Some createClassSchema\<rparr>)\<rparr>)
           | Inr p \<Rightarrow>
               (None, s\<lparr>cachedActionsTypes := (cachedActionsTypes s)(cacheId \<mapsto>
                  types\<lparr>collectionSchema := Some (registerProperty createClassSchema
                    (PropertySchema ''v'' ''array'' False None [p]))\<rparr>)\<rparr>)))"

text \<open>Lines 235-283: the result is a \<^verbatim>\<open>Collection\<close>.\<close>

definition handleCollection ::
    "nat \<Rightarrow> string \<Rightarrow> action_types \<Rightarrow> action_result \<Rightarrow> state \<Rightarrow> error option \<times> state" where
  "handleCollection i cacheId types result s =
     (case ensureCollectionSchema cacheId types s of
        (Some e, s1) \<Rightarrow> (Some e, s1)
      | (None, s1) \<Rightarrow>
          (let s2 = composite i ResponseActionCollection
                      [(ResponseActionCollectionModel, BodyModel (coll_model result)),
                       (ResponseActionCollectionState, BodyState (coll_state result)),
                       (ResponseActionCollectionSet, BodyItems (coll_all result))] s1;
               f = length (unsubscribedVars s2);
               s3 = s2\<lparr>unsubscribedVars := unsubscribedVars s2 @ [False]\<rparr>;
               (h, s4) = rx_subscribe (CollectionCb i f cacheId) [] s3
           in (None, s4\<lparr>collections := (collections s4)(i \<mapsto>
                 \<lparr>flagOf = f, eventsSub = h, collectionOf = result\<rparr>)\<rparr>)))"

text \<open>Lines 285-313: the result is an \<^verbatim>\<open>Observable\<close>.\<close>

definition handleObservable :: "nat \<Rightarrow> action_types \<Rightarrow> action_result \<Rightarrow> state \<Rightarrow> state" where
  "handleObservable i types result s =
     (let s1 = s\<lparr>observables := (observables s)(i \<mapsto>
                 \<lparr>observable = result, subscriptions = Map.empty,
                  entryNextSchema = observableNextSchema types\<rparr>)\<rparr>
      in if instSubject result then
           (let (h, s2) = rx_subscribe (SubjectCb i) (onSubscribe result) s1;
                s3 = s2\<lparr>observableSubjects := (observableSubjects s2)(i \<mapsto> h)\<rparr>
            in reply i ResponseActionObservable
                 (BodyObservable (if instBehaviorSubject result then behaviorSubject_type
                                  else subject_type)) s3)
         else reply i ResponseActionObservable (BodyObservable observable_type) s1)"

text \<open>Lines 232-316, the body of the \<^verbatim>\<open>try\<close> after the \<^verbatim>\<open>await\<close>; \<open>Some e\<close> is a throw.\<close>

definition handleResult ::
    "nat \<Rightarrow> string \<Rightarrow> action_types \<Rightarrow> action_result \<Rightarrow> state \<Rightarrow> error option \<times> state" where
  "handleResult i cacheId types result s =
     (if instEntitySubject result then
        (None, reply i ResponseEntity (BodyV (result_v result)) s)
      else if instCollection result then handleCollection i cacheId types result s
      else if instObservable result then (None, handleObservable i types result s)
      else (None, reply i ResponseActionSimple (BodyV (result_v result)) s))"

text \<open>
  Lines 229-316, the \<^verbatim>\<open>try\<close> block: the controller method is called (the call is
  recorded in \<open>invoked\<close>) and awaited, and its result handled. \<open>Some e\<close> is a throw
  inside the block.
\<close>

definition tryBlock ::
    "rpc_message \<Rightarrow> call_env \<Rightarrow> string \<Rightarrow> string \<Rightarrow> class_type \<Rightarrow> action_types \<Rightarrow> val list
      \<Rightarrow> state \<Rightarrow> error option \<times> state" where
  "tryBlock message env controller method classType types converted s =
     (let s1 = s\<lparr>invoked := invoked s @ [(controller, method, converted)]\<rparr> in
      case invoke env classType method converted of
        Inl error \<Rightarrow> (Some error, s1)
      | Inr result \<Rightarrow> handleResult (mid message) (controller @ ''!'' @ method) types result s1)"

text \<open>Lines 317-319: \<^verbatim>\<open>catch (error) { response.error(error); }\<close>.\<close>

definition catchBlock :: "rpc_message \<Rightarrow> error option \<times> state \<Rightarrow> state" where
  "catchBlock message r =
     (case r of (None, s) \<Rightarrow> s | (Some error, s) \<Rightarrow> response_error (mid message) error s)"

definition handleAction :: "rpc_message \<Rightarrow> call_env \<Rightarrow> state \<Rightarrow> error option \<times> state" where
  "handleAction message env s =
     (case parseActionType message of
        Inl e \<Rightarrow> (Some e, s)
      | Inr (controller, method) \<Rightarrow>
          (case controllers s controller of
             None \<Rightarrow> (Some (Error (''No controller registered for id '' @ controller)), s)
           | Some classType \<Rightarrow>
               (case loadTypes controller method s of
                  Inl e \<Rightarrow> (Some e, s)
                | Inr (types, s1) \<Rightarrow>
                    (case parseArgs message (parameterSchema types) of
                       Inl e \<Rightarrow> (Some e, s1)
                     | Inr args \<Rightarrow>
                         (case injector_get env classType of
                            Inl e \<Rightarrow> (Some e, s1)
                          | Inr controller_instance \<Rightarrow>
                              (case getXToClassFunction env (parametersDeserialize types) args of
                                 Inl e \<Rightarrow> (Some e, s1)
                               | Inr converted \<Rightarrow>
                                   (let errors = jitValidate env (parametersValidate types) converted
                                    in if errors \<noteq> [] then
                                         (None, response_error (mid message) (ValidationError errors) s1)
                                       else
                                         (None, catchBlock message
                                                  (tryBlock message env controller method
                                                     classType types converted s1)))))))))"

subsection \<open>Events and runs\<close>

text \<open>
  What can happen to the dispatcher: an inbound message for one of the three handlers, a
  notification of rxjs to a subscription, a value that was already on its way when the
  subscription was cancelled and reaches the \<^verbatim>\<open>next\<close> callback all the same, and a batch
  of collection events flushed by \<^verbatim>\<open>collectForMicrotask\<close> (also one that was pending when
  the subscription was cancelled).
\<close>

datatype event =
    ActionMessage rpc_message call_env
  | ActionTypeMessage rpc_message
  | ControlMessage rpc_message "notification list"
  | Notify nat notification
  | InFlight nat val
  | Batch nat "collection_event list" "val list" val

fun step :: "event \<Rightarrow> state \<Rightarrow> state" where
  "step (ActionMessage m env) s = snd (handleAction m env s)"
| "step (ActionTypeMessage m) s = snd (handleActionTypes m s)"
| "step (ControlMessage m sync) s = snd (handle m sync s)"
| "step (Notify h n) s = rx_notify h n s"
| "step (InFlight h v) s =
     (if h < length (rx s) then run_observer (observer (rx s ! h)) (Next v) s else s)"
| "step (Batch h events all_now state_now) s =
     (if h < length (rx s) then run_batch (observer (rx s ! h)) events all_now state_now s else s)"

definition run :: "event list \<Rightarrow> state \<Rightarrow> state" where
  "run es s = foldl (\<lambda>s' e. step e s') s es"

text \<open>The frames written between a state and a later one.\<close>

definition emitted :: "state \<Rightarrow> state \<Rightarrow> frame list" where
  "emitted s s' = drop (length (out s)) (out s')"

section \<open>Definitions used to state the properties\<close>

text \<open>The frame an observer writes for a notification, with the message id and the id of the body.\<close>

fun observer_frame :: "nat \<Rightarrow> nat \<Rightarrow> notification \<Rightarrow> frame" where
  "observer_frame i b (Next v) =
     \<lparr>fid = i, ftype = ResponseActionObservableNext, fbody = Single (BodyNext b v)\<rparr>"
| "observer_frame i b (Failed e) =
     \<lparr>fid = i, ftype = ResponseActionObservableError, fbody = Single (BodyError e (Some b))\<rparr>"
| "observer_frame i b Complete =
     \<lparr>fid = i, ftype = ResponseActionObservableComplete, fbody = Single (BodyId b)\<rparr>"

text \<open>The notifications that reach the observer: all up to the first error or completion.\<close>

fun delivered :: "notification list \<Rightarrow> notification list" where
  "delivered [] = []"
| "delivered (Next v # ns) = Next v # delivered ns"
| "delivered (Failed e # ns) = [Failed e]"
| "delivered (Complete # ns) = [Complete]"


subsection \<open>Example inputs\<close>

text \<open>
  A controller with a plain action, actions declared with a wrapper and its generic type,
  and an action declared as an \<^verbatim>\<open>Observable\<close> without generic type.
\<close>

definition ex_class :: class_type where
  "ex_class =
     \<lparr>className = ''C1'',
      getActions = [''add'', ''watch'', ''items'', ''bare''],
      getActionParameters = (\<lambda>m. if m = ''add''
         then [PropertySchema ''a'' ''number'' False None [],
               PropertySchema ''b'' ''number'' False None []]
         else []),
      getMethod = (\<lambda>m.
         if m = ''add'' then PropertySchema ''add'' ''number'' False None []
         else if m = ''bare'' then
           PropertySchema ''bare'' ''class'' False (Some (ClassRef ''Observable'' True False False)) []
         else PropertySchema m ''class'' False (Some (ClassRef ''Observable'' True False False))
                [PropertySchema ''T'' ''string'' False None []])\<rparr>"

definition ex_init :: state where
  "ex_init = init [''c1'' \<mapsto> ex_class]"

text \<open>An action message for controller \<open>c1\<close>, and the control messages of a call.\<close>

definition ex_action :: "nat \<Rightarrow> string \<Rightarrow> rpc_message" where
  "ex_action i m =
     \<lparr>mid = i, mtype = Action, parseActionType = Inr (''c1'', m),
      parseArgs = (\<lambda>schema. Inr [''2'', ''3'']), parseSubscribeId = Inl (Error ''no id'')\<rparr>"

definition ex_control :: "nat \<Rightarrow> rpc_types \<Rightarrow> nat \<Rightarrow> rpc_message" where
  "ex_control i t b =
     \<lparr>mid = i, mtype = t, parseActionType = Inl (Error ''no action''),
      parseArgs = (\<lambda>schema. Inl (Error ''no args'')), parseSubscribeId = Inr b\<rparr>"

text \<open>Collaborators that succeed, with the given validation failures and method outcome.\<close>

definition ex_env :: "validation_failed_item list \<Rightarrow> error + action_result \<Rightarrow> call_env" where
  "ex_env failures outcome =
     \<lparr>injector_get = (\<lambda>c. Inr ()), getXToClassFunction = (\<lambda>schema w. Inr w),
      jitValidate = (\<lambda>schema a. failures), invoke = (\<lambda>c m a. outcome)\<rparr>"

definition ex_plain :: action_result where
  "ex_plain =
     \<lparr>instEntitySubject = False, instCollection = False, instObservable = False,
      instSubject = False, instBehaviorSubject = False, result_v = ''5'', onSubscribe = [],
      coll_model = ''model'', coll_state = ''state'', coll_all = []\<rparr>"

definition ex_observable :: action_result where
  "ex_observable = ex_plain\<lparr>instObservable := True\<rparr>"

definition ex_subject :: action_result where
  "ex_subject = ex_plain\<lparr>instObservable := True, instSubject := True\<rparr>"

text \<open>A \<^verbatim>\<open>BehaviorSubject\<close> with current value \<open>hi\<close>.\<close>

definition ex_behaviorSubject :: action_result where
  "ex_behaviorSubject =
     ex_plain\<lparr>instObservable := True, instSubject := True, instBehaviorSubject := True,
              onSubscribe := [Next ''hi'']\<rparr>"

text \<open>A collection; as in the repository, a \<^verbatim>\<open>Collection\<close> is also an \<^verbatim>\<open>Observable\<close>.\<close>

definition ex_collection :: action_result where
  "ex_collection =
     ex_plain\<lparr>instCollection := True, instObservable := True, instSubject := True,
              coll_all := [''x'', ''y'']\<rparr>"

subsection \<open>Frames of a call\<close>

text \<open>
  The opening frame of a collection: one composite of type \<^verbatim>\<open>ResponseActionCollection\<close>
  with the model, the state and the snapshot of \<^verbatim>\<open>all()\<close>.
\<close>

definition opening_frame :: "nat \<Rightarrow> action_result \<Rightarrow> frame" where
  "opening_frame i result =
     \<lparr>fid = i, ftype = ResponseActionCollection,
      fbody = Composite
        [(ResponseActionCollectionModel, BodyModel (coll_model result)),
         (ResponseActionCollectionState, BodyState (coll_state result)),
         (ResponseActionCollectionSet, BodyItems (coll_all result))]\<rparr>"

text \<open>The frame that announces an observable result.\<close>

definition announcement :: "nat \<Rightarrow> action_observable_types \<Rightarrow> frame" where
  "announcement i t = \<lparr>fid = i, ftype = ResponseActionObservable, fbody = Single (BodyObservable t)\<rparr>"

text \<open>The frame \<^verbatim>\<open>response.error\<close> writes.\<close>

definition error_frame :: "nat \<Rightarrow> error \<Rightarrow> frame" where
  "error_frame i e = \<lparr>fid = i, ftype = RpcTypes_Error, fbody = Single (BodyError e None)\<rparr>"

text \<open>The type an observable result is announced with (lines 288-311).\<close>

definition observable_kind :: "action_result \<Rightarrow> action_observable_types" where
  "observable_kind result =
     (if instSubject result then
        (if instBehaviorSubject result then behaviorSubject_type else subject_type)
      else observable_type)"

definition is_error_frame :: "frame \<Rightarrow> bool" where
  "is_error_frame f = (ftype f = RpcTypes_Error)"

text \<open>Collaborators whose injector fails.\<close>

definition ex_env_no_injector :: call_env where
  "ex_env_no_injector = (ex_env [] (Inr ex_plain))\<lparr>injector_get := (\<lambda>c. Inl (Error ''no provider''))\<rparr>"

text \<open>
  The state after a call with id 4 has returned a plain observable and the client has
  subscribed with subscription id 1.
\<close>

definition ex_subscribed :: state where
  "ex_subscribed =
     run [ActionMessage (ex_action 4 ''watch'') (ex_env [] (Inr ex_observable)),
          ControlMessage (ex_control 4 ActionObservableSubscribe 1) []] ex_init"

subsection \<open>Runs of the dispatcher\<close>

text \<open>A state the dispatcher can be in: some events after its construction.\<close>

definition reachable :: "state \<Rightarrow> bool" where
  "reachable s = (\<exists>cs es. s = run es (init cs))"

text \<open>Every cached \<^verbatim>\<open>ActionTypes\<close> has the property \<open>v\<close> in its result schema.\<close>

definition cache_ok :: "state \<Rightarrow> bool" where
  "cache_ok s =
     (\<forall>k t. cachedActionsTypes s k = Some t \<longrightarrow> (\<exists>p. getProperty (resultSchema t) ''v'' = Inr p))"

text \<open>
  How a cache entry may differ from an earlier reading of it: in \<^verbatim>\<open>collectionSchema\<close>
  only, and only when that field was absent before.
\<close>

definition types_extend :: "action_types \<Rightarrow> action_types \<Rightarrow> bool" where
  "types_extend t t' =
     (t' = t\<lparr>collectionSchema := collectionSchema t'\<rparr>
      \<and> (collectionSchema t \<noteq> None \<longrightarrow> collectionSchema t' = collectionSchema t))"

subsection \<open>The classification of a result, in the words of the specification\<close>

datatype branch = EntitySubjectBranch | CollectionBranch | ObservableBranch | PlainBranch

fun matches :: "action_result \<Rightarrow> branch \<Rightarrow> bool" where
  "matches r EntitySubjectBranch = instEntitySubject r"
| "matches r CollectionBranch = instCollection r"
| "matches r ObservableBranch = instObservable r"
| "matches r PlainBranch = True"

text \<open>The fixed order; the first matching branch is taken.\<close>

definition classification_order :: "branch list" where
  "classification_order = [EntitySubjectBranch, CollectionBranch, ObservableBranch, PlainBranch]"

definition classify :: "action_result \<Rightarrow> branch" where
  "classify r = (case find (matches r) classification_order of Some b \<Rightarrow> b | None \<Rightarrow> PlainBranch)"

text \<open>The frame type that opens the response of a branch.\<close>

fun marker :: "branch \<Rightarrow> rpc_types" where
  "marker EntitySubjectBranch = ResponseEntity"
| "marker CollectionBranch = ResponseActionCollection"
| "marker ObservableBranch = ResponseActionObservable"
| "marker PlainBranch = ResponseActionSimple"

definition is_marker :: "frame \<Rightarrow> bool" where
  "is_marker f = (ftype f \<in> marker ` set classification_order)"

text \<open>The state after the types of \<open>items\<close> have been requested.\<close>

definition ex_types_loaded :: state where
  "ex_types_loaded = snd (handleActionTypes (ex_action 2 ''items'') ex_init)"

subsection \<open>Call ids, and the tables a step can change\<close>

text \<open>The ids of the action messages of a run; a client gives every call its own id.\<close>

fun action_ids :: "event list \<Rightarrow> nat list" where
  "action_ids [] = []"
| "action_ids (ActionMessage m env # es) = mid m # action_ids es"
| "action_ids (ActionTypeMessage m # es) = action_ids es"
| "action_ids (ControlMessage m sync # es) = action_ids es"
| "action_ids (Notify h n # es) = action_ids es"
| "action_ids (InFlight h v # es) = action_ids es"
| "action_ids (Batch h evs a st # es) = action_ids es"

text \<open>Everything but the cache, the output and the two logs is the same in both states.\<close>

definition same_tables :: "state \<Rightarrow> state \<Rightarrow> bool" where
  "same_tables s s' =
     (rx s' = rx s \<and> subObjs s' = subObjs s \<and> unsubscribedVars s' = unsubscribedVars s
      \<and> collections s' = collections s \<and> observables s' = observables s
      \<and> observableSubjects s' = observableSubjects s)"

text \<open>
  How the subscriptions of a state hang together with its tables, given the ids of the
  calls so far: a batch handler whose flag is not set belongs to the registered collection
  entry of its call; the observer of a client subscription knows its \<^verbatim>\<open>sub\<close> object, which
  holds this subscription, and is registered under its id as long as it is open or active;
  the observer of a subject belongs to a call with a registered subject.
\<close>

definition closure_inv :: "nat set \<Rightarrow> state \<Rightarrow> nat \<Rightarrow> closure \<Rightarrow> bool" where
  "closure_inv ids s h cl =
     (case cl of
        CollectionCb c f k \<Rightarrow>
          c \<in> ids \<and> f < length (unsubscribedVars s)
          \<and> (\<not> unsubscribedVars s ! f \<longrightarrow> (\<exists>e. collections s c = Some e \<and> flagOf e = f))
      | SubscriberCb c b a \<Rightarrow>
          c \<in> ids \<and> a < length (subObjs s) \<and> sub (subObjs s ! a) = Some h
          \<and> (\<not> closed (rx s ! h) \<or> active (subObjs s ! a) \<longrightarrow>
               (\<exists>e. observables s c = Some e \<and> subscriptions e b = Some a))
      | SubjectCb c \<Rightarrow> c \<in> ids \<and> observableSubjects s c \<noteq> None)"

definition tables_inv :: "nat set \<Rightarrow> state \<Rightarrow> bool" where
  "tables_inv ids s =
     ((\<forall>c e. collections s c = Some e \<longrightarrow> c \<in> ids)
      \<and> (\<forall>c e. observables s c = Some e \<longrightarrow> c \<in> ids)
      \<and> (\<forall>h < length (rx s). closure_inv ids s h (observer (rx s ! h))))"

text \<open>A frame of type \<^verbatim>\<open>ResponseActionCollectionChange\<close> for the call \<open>cid\<close>.\<close>

definition is_change_for :: "nat \<Rightarrow> frame \<Rightarrow> bool" where
  "is_change_for cid f = (fid f = cid \<and> ftype f = ResponseActionCollectionChange)"

text \<open>
  A frame of type \<^verbatim>\<open>ResponseActionObservableNext\<close>, \<^verbatim>\<open>ResponseActionObservableError\<close> or
  \<^verbatim>\<open>ResponseActionObservableComplete\<close> for the call \<open>cid\<close> whose body carries the id \<open>b\<close>.
\<close>

definition carries :: "nat \<Rightarrow> nat \<Rightarrow> frame \<Rightarrow> bool" where
  "carries cid b f =
     (fid f = cid
      \<and> (case fbody f of
            Single (BodyNext i v) \<Rightarrow> ftype f = ResponseActionObservableNext \<and> i = b
          | Single (BodyError e (Some i)) \<Rightarrow> ftype f = ResponseActionObservableError \<and> i = b
          | Single (BodyId i) \<Rightarrow> ftype f = ResponseActionObservableComplete \<and> i = b
          | _ \<Rightarrow> False))"

text \<open>The message subscribes \<open>b\<close> on the call \<open>cid\<close>.\<close>

definition subscribes :: "nat \<Rightarrow> nat \<Rightarrow> event \<Rightarrow> bool" where
  "subscribes cid b e =
     (case e of
        ControlMessage m sync \<Rightarrow>
          mtype m = ActionObservableSubscribe \<and> mid m = cid \<and> parseSubscribeId m = Inr b
      | _ \<Rightarrow> False)"

text \<open>
  The call \<open>cid\<close> has no registered collection entry, and every batch handler of the
  call has its flag \<^verbatim>\<open>unsubscribed\<close> set.
\<close>

definition dropped :: "nat \<Rightarrow> state \<Rightarrow> bool" where
  "dropped cid s =
     (collections s cid = None
      \<and> (\<forall>h < length (rx s). \<forall>f k. observer (rx s ! h) = CollectionCb cid f k \<longrightarrow>
            f < length (unsubscribedVars s) \<and> unsubscribedVars s ! f))"

text \<open>
  Every client subscription with id \<open>b\<close> on the call \<open>cid\<close> is cancelled and its
  \<^verbatim>\<open>sub\<close> object inactive; and when \<open>b\<close> is the call id itself, the call has no
  subscription of the server to a subject (whose frames carry the call id).
\<close>

definition silenced :: "nat \<Rightarrow> nat \<Rightarrow> state \<Rightarrow> bool" where
  "silenced cid b s =
     (\<forall>h < length (rx s).
        (\<forall>a. observer (rx s ! h) = SubscriberCb cid b a \<longrightarrow>
           closed (rx s ! h) \<and> a < length (subObjs s) \<and> \<not> active (subObjs s ! a))
        \<and> (b = cid \<longrightarrow> observer (rx s ! h) \<noteq> SubjectCb cid))"

text \<open>A state after a collection call with id 9, and events of a collection.\<close>

definition ex_collection_call :: event where
  "ex_collection_call = ActionMessage (ex_action 9 ''items'') (ex_env [] (Inr ex_collection))"

definition ex_add :: collection_event where
  "ex_add = \<lparr>ev_type = ''add'', ev_items = [''z''], ev_ids = []\<rparr>"

definition ex_set :: collection_event where
  "ex_set = \<lparr>ev_type = ''set'', ev_items = [], ev_ids = []\<rparr>"

text \<open>
  A call with id 4 returns a plain observable, and the client subscribes with id 4; the
  source delivers \<open>A\<close> and \<open>B\<close> inside \<^verbatim>\<open>subscribe\<close>.
\<close>

definition ex_stream_run :: "event list" where
  "ex_stream_run =
     [ActionMessage (ex_action 4 ''watch'') (ex_env [] (Inr ex_observable)),
      ControlMessage (ex_control 4 ActionObservableSubscribe 4) [Next ''A'', Next ''B'']]"

text \<open>
  The same with a \<^verbatim>\<open>Subject\<close>: the server has subscribed to it itself (subscription 0 of
  the source), and the client's subscription (subscription 1) has the call id as its id.
\<close>

definition ex_subject_run :: "event list" where
  "ex_subject_run =
     [ActionMessage (ex_action 4 ''watch'') (ex_env [] (Inr ex_subject)),
      ControlMessage (ex_control 4 ActionObservableSubscribe 4) []]"

subsection \<open>Keys of the type cache\<close>

text \<open>
  Line 77 keys the cache by the controller id, an exclamation mark and the method name.
  Another registered controller with an action of its own may have the key of the pair
  \<open>(controller, method)\<close>.
\<close>

definition key_shared :: "(string \<rightharpoonup> class_type) \<Rightarrow> string \<Rightarrow> string \<Rightarrow> bool" where
  "key_shared cs controller method =
     (\<exists>c ct m. cs c = Some ct \<and> m \<in> set (getActions ct) \<and> (c, m) \<noteq> (controller, method)
        \<and> c @ ''!'' @ m = controller @ ''!'' @ method)"

text \<open>
  Every key of the cache is the key of a registered controller and an action of it whose
  declared return type has passed lines 109-127.
\<close>

definition cache_built :: "state \<Rightarrow> bool" where
  "cache_built s =
     (\<forall>k. cachedActionsTypes s k \<noteq> None \<longrightarrow>
        (\<exists>c ct m u. controllers s c = Some ct \<and> m \<in> set (getActions ct)
           \<and> k = c @ ''!'' @ m \<and> unwrapResult ct m (getMethod ct m) = Inr u))"

text \<open>Every invoked method has its types in the cache.\<close>

definition invoked_cached :: "state \<Rightarrow> bool" where
  "invoked_cached s =
     (\<forall>c m a. (c, m, a) \<in> set (invoked s) \<longrightarrow> cachedActionsTypes s (c @ ''!'' @ m) \<noteq> None)"

text \<open>
  Two controllers with the ids \<open>a\<close> and \<open>a!b\<close>: the action \<open>b!c\<close> of the first returns a
  number, the action \<open>c\<close> of the second is declared as an \<^verbatim>\<open>Observable\<close> without generic
  type. Both pairs have the cache key \<open>a!b!c\<close>.
\<close>

definition ex_class_a :: class_type where
  "ex_class_a =
     \<lparr>className = ''A'', getActions = [''b!c''], getActionParameters = (\<lambda>m. []),
      getMethod = (\<lambda>m. PropertySchema m ''number'' False None [])\<rparr>"

definition ex_class_ab :: class_type where
  "ex_class_ab =
     \<lparr>className = ''AB'', getActions = [''c''], getActionParameters = (\<lambda>m. []),
      getMethod = (\<lambda>m. PropertySchema m ''class'' False
                         (Some (ClassRef ''Observable'' True False False)) [])\<rparr>"

definition ex_colliding :: "string \<rightharpoonup> class_type" where
  "ex_colliding = [''a'' \<mapsto> ex_class_a, ''a!b'' \<mapsto> ex_class_ab]"

text \<open>An action message for the given controller and method, without arguments.\<close>

definition ex_call :: "nat \<Rightarrow> string \<Rightarrow> string \<Rightarrow> rpc_message" where
  "ex_call i c m =
     \<lparr>mid = i, mtype = Action, parseActionType = Inr (c, m),
      parseArgs = (\<lambda>schema. Inr []), parseSubscribeId = Inl (Error ''no id'')\<rparr>"

text \<open>The result of a function that may throw, when it returns.\<close>

definition projr_option :: "'e + 'a \<Rightarrow> 'a option" where
  "projr_option x = (case x of Inl e \<Rightarrow> None | Inr y \<Rightarrow> Some y)"


section \<open>Basic facts\<close>

subsection \<open>Which fields an operation touches\<close>

lemma reply_fields [simp]:
  "out (reply i t b s) = out s @ [\<lparr>fid = i, ftype = t, fbody = Single b\<rparr>]"
  "rx (reply i t b s) = rx s" "subObjs (reply i t b s) = subObjs s"
  "unsubscribedVars (reply i t b s) = unsubscribedVars s"
  "controllers (reply i t b s) = controllers s"
  "cachedActionsTypes (reply i t b s) = cachedActionsTypes s"
  "observableSubjects (reply i t b s) = observableSubjects s"
  "collections (reply i t b s) = collections s"
  "observables (reply i t b s) = observables s"
  "invoked (reply i t b s) = invoked s"
  "collectionsClosed (reply i t b s) = collectionsClosed s"
  by (simp_all add: reply_def)

lemma composite_fields [simp]:
  "out (composite i t bs s) = out s @ [\<lparr>fid = i, ftype = t, fbody = Composite bs\<rparr>]"
  "rx (composite i t bs s) = rx s" "subObjs (composite i t bs s) = subObjs s"
  "unsubscribedVars (composite i t bs s) = unsubscribedVars s"
  "controllers (composite i t bs s) = controllers s"
  "cachedActionsTypes (composite i t bs s) = cachedActionsTypes s"
  "observableSubjects (composite i t bs s) = observableSubjects s"
  "collections (composite i t bs s) = collections s"
  "observables (composite i t bs s) = observables s"
  "invoked (composite i t bs s) = invoked s"
  "collectionsClosed (composite i t bs s) = collectionsClosed s"
  by (simp_all add: composite_def)

lemma response_error_fields [simp]:
  "out (response_error i e s) =
     out s @ [\<lparr>fid = i, ftype = RpcTypes_Error, fbody = Single (BodyError e None)\<rparr>]"
  "rx (response_error i e s) = rx s" "subObjs (response_error i e s) = subObjs s"
  "unsubscribedVars (response_error i e s) = unsubscribedVars s"
  "controllers (response_error i e s) = controllers s"
  "cachedActionsTypes (response_error i e s) = cachedActionsTypes s"
  "observableSubjects (response_error i e s) = observableSubjects s"
  "collections (response_error i e s) = collections s"
  "observables (response_error i e s) = observables s"
  "invoked (response_error i e s) = invoked s"
  "collectionsClosed (response_error i e s) = collectionsClosed s"
  by (simp_all add: response_error_def)

lemma rx_close_fields [simp]:
  "out (rx_close h s) = out s"
  "rx (rx_close h s) = (rx s)[h := (rx s ! h)\<lparr>closed := True\<rparr>]"
  "subObjs (rx_close h s) = subObjs s"
  "unsubscribedVars (rx_close h s) = unsubscribedVars s"
  "controllers (rx_close h s) = controllers s"
  "cachedActionsTypes (rx_close h s) = cachedActionsTypes s"
  "observableSubjects (rx_close h s) = observableSubjects s"
  "collections (rx_close h s) = collections s"
  "observables (rx_close h s) = observables s"
  "invoked (rx_close h s) = invoked s"
  "collectionsClosed (rx_close h s) = collectionsClosed s"
  by (simp_all add: rx_close_def)

lemma run_observer_fields [simp]:
  "rx (run_observer c n s) = rx s" "subObjs (run_observer c n s) = subObjs s"
  "unsubscribedVars (run_observer c n s) = unsubscribedVars s"
  "controllers (run_observer c n s) = controllers s"
  "cachedActionsTypes (run_observer c n s) = cachedActionsTypes s"
  "observableSubjects (run_observer c n s) = observableSubjects s"
  "collections (run_observer c n s) = collections s"
  "observables (run_observer c n s) = observables s"
  "invoked (run_observer c n s) = invoked s"
  "collectionsClosed (run_observer c n s) = collectionsClosed s"
  by (cases c; cases n; simp)+

lemma run_batch_fields [simp]:
  "rx (run_batch c es a st s) = rx s" "subObjs (run_batch c es a st s) = subObjs s"
  "unsubscribedVars (run_batch c es a st s) = unsubscribedVars s"
  "controllers (run_batch c es a st s) = controllers s"
  "cachedActionsTypes (run_batch c es a st s) = cachedActionsTypes s"
  "observableSubjects (run_batch c es a st s) = observableSubjects s"
  "collections (run_batch c es a st s) = collections s"
  "observables (run_batch c es a st s) = observables s"
  "invoked (run_batch c es a st s) = invoked s"
  "collectionsClosed (run_batch c es a st s) = collectionsClosed s"
  by (cases c; simp)+

lemma rx_notify_fields [simp]:
  "subObjs (rx_notify h n s) = subObjs s"
  "unsubscribedVars (rx_notify h n s) = unsubscribedVars s"
  "controllers (rx_notify h n s) = controllers s"
  "cachedActionsTypes (rx_notify h n s) = cachedActionsTypes s"
  "observableSubjects (rx_notify h n s) = observableSubjects s"
  "collections (rx_notify h n s) = collections s"
  "observables (rx_notify h n s) = observables s"
  "invoked (rx_notify h n s) = invoked s"
  "collectionsClosed (rx_notify h n s) = collectionsClosed s"
  "length (rx (rx_notify h n s)) = length (rx s)"
  by (simp_all add: rx_notify_def split: notification.split)

lemma rx_notify_observer [simp]:
  "observer (rx (rx_notify h n s) ! k) = observer (rx s ! k)"
  by (cases "k = h") (simp_all add: rx_notify_def split: notification.split)

lemma deliver_simps [simp]:
  "deliver h [] s = s" "deliver h (n # ns) s = deliver h ns (rx_notify h n s)"
  by (simp_all add: deliver_def)

lemma deliver_fields [simp]:
  "subObjs (deliver h ns s) = subObjs s"
  "unsubscribedVars (deliver h ns s) = unsubscribedVars s"
  "controllers (deliver h ns s) = controllers s"
  "cachedActionsTypes (deliver h ns s) = cachedActionsTypes s"
  "observableSubjects (deliver h ns s) = observableSubjects s"
  "collections (deliver h ns s) = collections s"
  "observables (deliver h ns s) = observables s"
  "invoked (deliver h ns s) = invoked s"
  "collectionsClosed (deliver h ns s) = collectionsClosed s"
  "length (rx (deliver h ns s)) = length (rx s)"
  "observer (rx (deliver h ns s) ! k) = observer (rx s ! k)"
  by (induction ns arbitrary: s; simp)+

lemma rx_subscribe_eq:
  "rx_subscribe cb sync s =
     (length (rx s), deliver (length (rx s)) sync (s\<lparr>rx := rx s @ [\<lparr>observer = cb, closed = False\<rparr>]\<rparr>))"
  by (simp add: rx_subscribe_def Let_def)

lemma loadTypes_fields:
  assumes "loadTypes c m s = Inr (t, s1)"
  shows "out s1 = out s" "rx s1 = rx s" "subObjs s1 = subObjs s"
    "unsubscribedVars s1 = unsubscribedVars s" "controllers s1 = controllers s"
    "observableSubjects s1 = observableSubjects s" "collections s1 = collections s"
    "observables s1 = observables s" "invoked s1 = invoked s"
    "collectionsClosed s1 = collectionsClosed s"
  using assms
  by (auto simp: loadTypes_def Let_def split: option.splits if_splits sum.splits)

text \<open>When every step before the \<^verbatim>\<open>try\<close> block succeeds, the block runs and its throw is caught.\<close>

lemma handleAction_try:
  assumes "parseActionType message = Inr (controller, method)"
    and "controllers s controller = Some classType"
    and "loadTypes controller method s = Inr (types, s1)"
    and "parseArgs message (parameterSchema types) = Inr args"
    and "injector_get env classType = Inr u"
    and "getXToClassFunction env (parametersDeserialize types) args = Inr converted"
    and "jitValidate env (parametersValidate types) converted = []"
  shows "handleAction message env s =
           (None, catchBlock message
                    (tryBlock message env controller method classType types converted s1))"
  using assms by (simp add: handleAction_def)

subsection \<open>The result handlers\<close>

lemma ensureCollectionSchema_fields:
  assumes "ensureCollectionSchema k t s = (r, s1)"
  shows "out s1 = out s" "rx s1 = rx s" "subObjs s1 = subObjs s"
    "unsubscribedVars s1 = unsubscribedVars s" "controllers s1 = controllers s"
    "observableSubjects s1 = observableSubjects s" "collections s1 = collections s"
    "observables s1 = observables s" "invoked s1 = invoked s"
    "collectionsClosed s1 = collectionsClosed s"
  using assms
  by (auto simp: ensureCollectionSchema_def split: option.splits sum.splits)

lemma handleCollection_throw:
  assumes "ensureCollectionSchema k t s = (Some e, s1)"
  shows "handleCollection i k t r s = (Some e, s1)"
  using assms by (simp add: handleCollection_def)

lemma handleCollection_ok:
  assumes "ensureCollectionSchema k t s = (None, s1)"
  shows "handleCollection i k t r s =
    (None, s1\<lparr>out := out s @ [opening_frame i r],
            unsubscribedVars := unsubscribedVars s @ [False],
            rx := rx s @ [\<lparr>observer = CollectionCb i (length (unsubscribedVars s)) k, closed = False\<rparr>],
            collections := (collections s)(i \<mapsto>
              \<lparr>flagOf = length (unsubscribedVars s), eventsSub = length (rx s),
               collectionOf = r\<rparr>)\<rparr>)"
  using assms ensureCollectionSchema_fields[OF assms]
  by (simp add: handleCollection_def rx_subscribe_eq Let_def composite_def opening_frame_def)

lemma handleCollection_cases:
  obtains (throw) e s1 where "ensureCollectionSchema k t s = (Some e, s1)"
      "handleCollection i k t r s = (Some e, s1)"
  | (ok) s1 where "ensureCollectionSchema k t s = (None, s1)"
      "handleCollection i k t r s =
        (None, s1\<lparr>out := out s @ [opening_frame i r],
            unsubscribedVars := unsubscribedVars s @ [False],
            rx := rx s @ [\<lparr>observer = CollectionCb i (length (unsubscribedVars s)) k, closed = False\<rparr>],
            collections := (collections s)(i \<mapsto>
              \<lparr>flagOf = length (unsubscribedVars s), eventsSub = length (rx s),
               collectionOf = r\<rparr>)\<rparr>)"
proof (cases "ensureCollectionSchema k t s")
  case (Pair x s1)
  show ?thesis
  proof (cases x)
    case None
    then show ?thesis using Pair handleCollection_ok[of k t s s1] ok by simp
  next
    case (Some e)
    then show ?thesis using Pair handleCollection_throw[of k t s e s1] throw by simp
  qed
qed

lemma handleCollection_fields [simp]:
  "subObjs (snd (handleCollection i k t r s)) = subObjs s"
  "controllers (snd (handleCollection i k t r s)) = controllers s"
  "observableSubjects (snd (handleCollection i k t r s)) = observableSubjects s"
  "observables (snd (handleCollection i k t r s)) = observables s"
  "invoked (snd (handleCollection i k t r s)) = invoked s"
  "collectionsClosed (snd (handleCollection i k t r s)) = collectionsClosed s"
  by (rule handleCollection_cases[of k t s i r]; simp add: ensureCollectionSchema_fields)+

lemma handleObservable_fields [simp]:
  "subObjs (handleObservable i t r s) = subObjs s"
  "controllers (handleObservable i t r s) = controllers s"
  "cachedActionsTypes (handleObservable i t r s) = cachedActionsTypes s"
  "collections (handleObservable i t r s) = collections s"
  "unsubscribedVars (handleObservable i t r s) = unsubscribedVars s"
  "invoked (handleObservable i t r s) = invoked s"
  "collectionsClosed (handleObservable i t r s) = collectionsClosed s"
  by (simp_all add: handleObservable_def rx_subscribe_eq Let_def)

lemma handleResult_fields [simp]:
  "subObjs (snd (handleResult i k t r s)) = subObjs s"
  "controllers (snd (handleResult i k t r s)) = controllers s"
  "invoked (snd (handleResult i k t r s)) = invoked s"
  "collectionsClosed (snd (handleResult i k t r s)) = collectionsClosed s"
  by (simp_all add: handleResult_def)

lemma catchBlock_fields [simp]:
  "subObjs (catchBlock m x) = subObjs (snd x)"
  "controllers (catchBlock m x) = controllers (snd x)"
  "invoked (catchBlock m x) = invoked (snd x)"
  "collectionsClosed (catchBlock m x) = collectionsClosed (snd x)"
  "cachedActionsTypes (catchBlock m x) = cachedActionsTypes (snd x)"
  "observableSubjects (catchBlock m x) = observableSubjects (snd x)"
  "collections (catchBlock m x) = collections (snd x)"
  "observables (catchBlock m x) = observables (snd x)"
  "unsubscribedVars (catchBlock m x) = unsubscribedVars (snd x)"
  "rx (catchBlock m x) = rx (snd x)"
  by (simp_all add: catchBlock_def split: prod.split option.split)

lemma tryBlock_invoked [simp]:
  "invoked (snd (tryBlock message env controller method classType types converted s))
     = invoked s @ [(controller, method, converted)]"
  by (simp add: tryBlock_def Let_def split: sum.split)

subsection \<open>What a subscription forwards\<close>

lemma deliver_closed:
  "h < length (rx s) \<Longrightarrow> closed (rx s ! h) \<Longrightarrow> deliver h ns s = s"
  by (induction ns arbitrary: s) (simp_all add: rx_notify_def)

lemma deliver_not_registered:
  "\<not> h < length (rx s) \<Longrightarrow> deliver h ns s = s"
  by (induction ns arbitrary: s) (simp_all add: rx_notify_def)

lemma deliver_subject_out:
  assumes "h < length (rx s)" and "observer (rx s ! h) = SubjectCb i" and "\<not> closed (rx s ! h)"
  shows "out (deliver h ns s) = out s @ map (observer_frame i i) (delivered ns)"
  using assms
proof (induction ns arbitrary: s)
  case Nil
  then show ?case by simp
next
  case (Cons n ns)
  show ?case
  proof (cases n)
    case (Next v)
    have "out (deliver h ns (rx_notify h n s)) =
            out (rx_notify h n s) @ map (observer_frame i i) (delivered ns)"
      using Cons.prems Next by (intro Cons.IH) (simp_all add: rx_notify_def)
    then show ?thesis using Cons.prems Next by (simp add: rx_notify_def)
  next
    case (Failed e)
    have "deliver h ns (rx_notify h n s) = rx_notify h n s"
      using Cons.prems Failed by (intro deliver_closed) (simp_all add: rx_notify_def)
    then show ?thesis using Cons.prems Failed by (simp add: rx_notify_def)
  next
    case Complete
    have "deliver h ns (rx_notify h n s) = rx_notify h n s"
      using Cons.prems Complete by (intro deliver_closed) (simp_all add: rx_notify_def)
    then show ?thesis using Cons.prems Complete by (simp add: rx_notify_def)
  qed
qed

lemma deliver_subscriber_out:
  assumes "h < length (rx s)" and "observer (rx s ! h) = SubscriberCb i b a"
    and "\<not> closed (rx s ! h)" and "a < length (subObjs s)" and "active (subObjs s ! a)"
  shows "out (deliver h ns s) = out s @ map (observer_frame i b) (delivered ns)"
  using assms
proof (induction ns arbitrary: s)
  case Nil
  then show ?case by simp
next
  case (Cons n ns)
  show ?case
  proof (cases n)
    case (Next v)
    have "out (deliver h ns (rx_notify h n s)) =
            out (rx_notify h n s) @ map (observer_frame i b) (delivered ns)"
      using Cons.prems Next by (intro Cons.IH) (simp_all add: rx_notify_def)
    then show ?thesis using Cons.prems Next by (simp add: rx_notify_def)
  next
    case (Failed e)
    have "deliver h ns (rx_notify h n s) = rx_notify h n s"
      using Cons.prems Failed by (intro deliver_closed) (simp_all add: rx_notify_def)
    then show ?thesis using Cons.prems Failed by (simp add: rx_notify_def)
  next
    case Complete
    have "deliver h ns (rx_notify h n s) = rx_notify h n s"
      using Cons.prems Complete by (intro deliver_closed) (simp_all add: rx_notify_def)
    then show ?thesis using Cons.prems Complete by (simp add: rx_notify_def)
  qed
qed


section \<open>loadTypes rejects a wrapper without generic type\<close>

lemma sublist_method_missingGenericMessage:
  "sublist method (missingGenericMessage classType method cn)"
  unfolding missingGenericMessage_def getClassPropertyName_def sublist_def
  by (rule exI[of _ "''Your method '' @ className classType @ ''::''"]) auto

lemma sublist_className_missingGenericMessage:
  "sublist cn (missingGenericMessage classType method cn)"
  unfolding missingGenericMessage_def sublist_def
  by (rule exI[of _ "''Your method '' @ getClassPropertyName classType method @ '' returns ''"]) auto

lemma loadTypes_wrapper_without_generic:
  assumes "cachedActionsTypes s (controller @ ''!'' @ method) = None"
    and "controllers s controller = Some classType"
    and "method \<in> set (getActions classType)"
    and "propClassType (getMethod classType method) = Some c"
    and "extendsObservable c \<or> extendsCollection c \<or> extendsPromise c"
    and "templateArgs (getMethod classType method) = []"
  shows "loadTypes controller method s =
           Inl (Error (missingGenericMessage classType method (getClassName c)))"
  using assms by (auto simp: loadTypes_def unwrapResult_def Let_def)

text \<open>
  When \<^verbatim>\<open>loadTypes\<close> throws, \<^verbatim>\<open>handleAction\<close> ends with that error at line 218: the state
  is the one it started in, and no method has been invoked.
\<close>

lemma handleAction_wrapper_without_generic:
  assumes "cachedActionsTypes s (controller @ ''!'' @ method) = None"
    and "controllers s controller = Some classType"
    and "method \<in> set (getActions classType)"
    and "propClassType (getMethod classType method) = Some c"
    and "extendsObservable c \<or> extendsCollection c \<or> extendsPromise c"
    and "templateArgs (getMethod classType method) = []"
    and "parseActionType message = Inr (controller, method)"
  shows "handleAction message env s =
           (Some (Error (missingGenericMessage classType method (getClassName c))), s)"
proof -
  have "loadTypes controller method s =
      Inl (Error (missingGenericMessage classType method (getClassName c)))"
    using assms(1-6) by (rule loadTypes_wrapper_without_generic)
  then show ?thesis using assms(2,7) by (simp add: handleAction_def)
qed

section \<open>Validation comes before the invocation\<close>

text \<open>
  C9. When the message parses, the types load and the arguments decode, a non-empty list
  of validation failures makes \<^verbatim>\<open>handleAction\<close> write exactly one frame, the error frame
  of a \<^verbatim>\<open>ValidationError\<close> with that list, and return without invoking the controller
  method; with an empty list the controller method is invoked with the decoded arguments.
\<close>

theorem validation_rejects_before_invocation:
  assumes "parseActionType message = Inr (controller, method)"
    and "controllers s controller = Some classType"
    and "loadTypes controller method s = Inr (types, s1)"
    and "parseArgs message (parameterSchema types) = Inr args"
    and "injector_get env classType = Inr u"
    and "getXToClassFunction env (parametersDeserialize types) args = Inr converted"
  shows "(jitValidate env (parametersValidate types) converted \<noteq> [] \<longrightarrow>
            fst (handleAction message env s) = None
          \<and> out (snd (handleAction message env s)) =
              out s @ [\<lparr>fid = mid message, ftype = RpcTypes_Error,
                        fbody = Single (BodyError (ValidationError
                          (jitValidate env (parametersValidate types) converted)) None)\<rparr>]
          \<and> invoked (snd (handleAction message env s)) = invoked s)
       \<and> (jitValidate env (parametersValidate types) converted = [] \<longrightarrow>
            invoked (snd (handleAction message env s)) =
              invoked s @ [(controller, method, converted)])"
proof (intro conjI impI)
  assume v: "jitValidate env (parametersValidate types) converted \<noteq> []"
  have h: "handleAction message env s =
      (None, response_error (mid message)
        (ValidationError (jitValidate env (parametersValidate types) converted)) s1)"
    using assms v by (simp add: handleAction_def)
  show "fst (handleAction message env s) = None" by (simp add: h)
  show "out (snd (handleAction message env s)) =
          out s @ [\<lparr>fid = mid message, ftype = RpcTypes_Error,
                    fbody = Single (BodyError (ValidationError
                      (jitValidate env (parametersValidate types) converted)) None)\<rparr>]"
    by (simp add: h loadTypes_fields[OF assms(3)])
  show "invoked (snd (handleAction message env s)) = invoked s"
    by (simp add: h loadTypes_fields[OF assms(3)])
next
  assume v: "jitValidate env (parametersValidate types) converted = []"
  have h: "handleAction message env s =
      (None, catchBlock message
               (tryBlock message env controller method classType types converted s1))"
    using assms v by (rule handleAction_try)
  show "invoked (snd (handleAction message env s)) =
          invoked s @ [(controller, method, converted)]"
    by (simp add: h loadTypes_fields[OF assms(3)])
qed


theorem validation_rejects_before_invocation_witness:
  "jitValidate (ex_env [(''a'', ''type'', ''not a number'')] (Inr ex_plain)) [] [''2'', ''3''] \<noteq> []
    \<and> fst (handleAction (ex_action 7 ''add'')
             (ex_env [(''a'', ''type'', ''not a number'')] (Inr ex_plain)) ex_init) = None
    \<and> out (snd (handleAction (ex_action 7 ''add'')
             (ex_env [(''a'', ''type'', ''not a number'')] (Inr ex_plain)) ex_init)) =
        [\<lparr>fid = 7, ftype = RpcTypes_Error,
          fbody = Single (BodyError (ValidationError [(''a'', ''type'', ''not a number'')]) None)\<rparr>]
    \<and> invoked (snd (handleAction (ex_action 7 ''add'')
             (ex_env [(''a'', ''type'', ''not a number'')] (Inr ex_plain)) ex_init)) = []
    \<and> invoked (snd (handleAction (ex_action 7 ''add'') (ex_env [] (Inr ex_plain)) ex_init)) =
       [(''c1'', ''add'', [''2'', ''3''])]"
proof -
  obtain t s1 where l: "loadTypes ''c1'' ''add'' ex_init = Inr (t, s1)"
    by (simp add: loadTypes_def ex_init_def init_def ex_class_def unwrapResult_def Let_def)
  have c: "controllers ex_init ''c1'' = Some ex_class"
    by (simp add: ex_init_def init_def)
  have o: "out ex_init = []" "invoked ex_init = []"
    by (simp_all add: ex_init_def init_def)
  show ?thesis
    using validation_rejects_before_invocation [of "ex_action 7 ''add''" "''c1''" "''add''"
        ex_init ex_class t s1 "[''2'', ''3'']"
        "ex_env [(''a'', ''type'', ''not a number'')] (Inr ex_plain)" "()" "[''2'', ''3'']"]
      validation_rejects_before_invocation [of "ex_action 7 ''add''" "''c1''" "''add''"
        ex_init ex_class t s1 "[''2'', ''3'']" "ex_env [] (Inr ex_plain)" "()" "[''2'', ''3'']"]
      l c o
    by (simp add: ex_action_def ex_env_def)
qed


section \<open>The frames of the result handlers\<close>

lemma emitted_append: "out s' = out s @ fs \<Longrightarrow> emitted s s' = fs"
  by (simp add: emitted_def)

lemma emitted_same [simp]: "emitted s s = []"
  by (simp add: emitted_def)

lemma handleObservable_out:
  "out (handleObservable i t r s) =
     out s @ (if instSubject r then map (observer_frame i i) (delivered (onSubscribe r)) else [])
       @ [announcement i (observable_kind r)]"
proof (cases "instSubject r")
  case False
  then show ?thesis
    by (simp add: handleObservable_def Let_def announcement_def observable_kind_def)
next
  case True
  let ?s1 = "s\<lparr>observables := (observables s)(i \<mapsto>
                 \<lparr>observable = r, subscriptions = Map.empty,
                  entryNextSchema = observableNextSchema t\<rparr>)\<rparr>"
  let ?s2 = "?s1\<lparr>rx := rx ?s1 @ [\<lparr>observer = SubjectCb i, closed = False\<rparr>]\<rparr>"
  have "out (deliver (length (rx s)) (onSubscribe r) ?s2) =
          out ?s2 @ map (observer_frame i i) (delivered (onSubscribe r))"
    by (rule deliver_subject_out) simp_all
  then show ?thesis using True
    by (simp add: handleObservable_def Let_def rx_subscribe_eq announcement_def observable_kind_def)
qed

lemma observer_frame_not_error [simp]: "ftype (observer_frame i b n) \<noteq> RpcTypes_Error"
  by (cases n) simp_all

lemma handleCollection_out:
  "out (snd (handleCollection i k t r s)) =
     out s @ (if fst (handleCollection i k t r s) = None then [opening_frame i r] else [])"
  by (rule handleCollection_cases[of k t s i r]) (simp_all add: ensureCollectionSchema_fields)

lemma handleResult_out:
  "out (snd (handleResult i k t r s)) = out s @
     (if instEntitySubject r then [\<lparr>fid = i, ftype = ResponseEntity, fbody = Single (BodyV (result_v r))\<rparr>]
      else if instCollection r then
        (if fst (handleResult i k t r s) = None then [opening_frame i r] else [])
      else if instObservable r then
        (if instSubject r then map (observer_frame i i) (delivered (onSubscribe r)) else [])
          @ [announcement i (observable_kind r)]
      else [\<lparr>fid = i, ftype = ResponseActionSimple, fbody = Single (BodyV (result_v r))\<rparr>])"
  by (simp add: handleResult_def handleCollection_out handleObservable_out)

lemma handleResult_no_error_frame:
  "filter is_error_frame (emitted s (snd (handleResult i k t r s))) = []"
  by (auto simp: emitted_append[OF handleResult_out] is_error_frame_def opening_frame_def
      announcement_def filter_empty_conv)

lemma tryBlock_no_error_frame:
  "filter is_error_frame
     (emitted s (snd (tryBlock message env controller method classType types converted s))) = []"
proof (cases "invoke env classType method converted")
  case (Inl e)
  then show ?thesis by (simp add: tryBlock_def emitted_def)
next
  case (Inr r)
  have "emitted s (snd (tryBlock message env controller method classType types converted s)) =
        emitted (s\<lparr>invoked := invoked s @ [(controller, method, converted)]\<rparr>)
          (snd (handleResult (mid message) (controller @ ''!'' @ method) types r
             (s\<lparr>invoked := invoked s @ [(controller, method, converted)]\<rparr>)))"
    using Inr by (simp add: tryBlock_def emitted_def)
  then show ?thesis by (simp add: handleResult_no_error_frame)
qed

lemma tryBlock_out_prefix:
  "out (snd (tryBlock message env controller method classType types converted s)) =
     out s @ emitted s (snd (tryBlock message env controller method classType types converted s))"
proof (cases "invoke env classType method converted")
  case (Inl e)
  then show ?thesis by (simp add: tryBlock_def emitted_def)
next
  case (Inr r)
  show ?thesis
    using Inr handleResult_out[of "mid message" "controller @ ''!'' @ method" types r
        "s\<lparr>invoked := invoked s @ [(controller, method, converted)]\<rparr>"]
    by (simp add: tryBlock_def emitted_def)
qed


section \<open>What handleAction catches\<close>

lemma handleAction_escape_no_frame:
  assumes "fst (handleAction message env s) = Some e"
  shows "out (snd (handleAction message env s)) = out s"
    and "invoked (snd (handleAction message env s)) = invoked s"
proof -
  have "out (snd (handleAction message env s)) = out s
      \<and> invoked (snd (handleAction message env s)) = invoked s"
  proof (cases "parseActionType message")
    case (Inl e1)
    then show ?thesis by (simp add: handleAction_def)
  next
    case (Inr cm)
    obtain controller mname where cm: "cm = (controller, mname)" by (cases cm)
    show ?thesis
    proof (cases "controllers s controller")
      case None
      then show ?thesis using Inr cm by (simp add: handleAction_def)
    next
      case (Some classType)
      show ?thesis
      proof (cases "loadTypes controller mname s")
        case (Inl e1)
        then show ?thesis using Inr cm Some by (simp add: handleAction_def)
      next
        case lt: (Inr ts)
        obtain types s1 where ts: "ts = (types, s1)" by (cases ts)
        have l: "loadTypes controller mname s = Inr (types, s1)" using lt ts by simp
        note f = loadTypes_fields(1)[OF l] loadTypes_fields(9)[OF l]
        show ?thesis
        proof (cases "parseArgs message (parameterSchema types)")
          case (Inl e1)
          then show ?thesis using Inr cm Some l f by (simp add: handleAction_def)
        next
          case pa: (Inr args)
          show ?thesis
          proof (cases "injector_get env classType")
            case (Inl e1)
            then show ?thesis using Inr cm Some l f pa by (simp add: handleAction_def)
          next
            case ig: (Inr u)
            show ?thesis
            proof (cases "getXToClassFunction env (parametersDeserialize types) args")
              case (Inl e1)
              then show ?thesis using Inr cm Some l f pa ig by (simp add: handleAction_def)
            next
              case cv: (Inr converted)
              show ?thesis using assms Inr cm Some l f pa ig cv
                by (simp add: handleAction_def Let_def split: if_splits)
            qed
          qed
        qed
      qed
    qed
  qed
  then show "out (snd (handleAction message env s)) = out s"
    and "invoked (snd (handleAction message env s)) = invoked s" by simp_all
qed

text \<open>
  C2, amended. Only the \<^verbatim>\<open>try\<close> block of \<^verbatim>\<open>handleAction\<close> is guarded. A failure of body
  parsing, controller lookup, type loading, argument parsing, injector resolution or
  argument decoding leaves \<^verbatim>\<open>handleAction\<close> as an exception, and whenever an exception
  leaves \<^verbatim>\<open>handleAction\<close> no frame has been written and no method invoked. When all these
  steps succeed and validation passes, \<^verbatim>\<open>handleAction\<close> returns normally: a throw inside
  the \<^verbatim>\<open>try\<close> block (in particular a failing or rejecting controller method) is reported
  as exactly one error frame, written last, and without a throw no error frame is written.
\<close>

theorem handleAction_catch_scope:
  "(\<forall>e. parseActionType message = Inl e \<longrightarrow> handleAction message env s = (Some e, s))
 \<and> (\<forall>controller method. parseActionType message = Inr (controller, method) \<longrightarrow>
       controllers s controller = None \<longrightarrow>
       handleAction message env s =
         (Some (Error (''No controller registered for id '' @ controller)), s))
 \<and> (\<forall>controller method classType e. parseActionType message = Inr (controller, method) \<longrightarrow>
       controllers s controller = Some classType \<longrightarrow>
       loadTypes controller method s = Inl e \<longrightarrow>
       handleAction message env s = (Some e, s))
 \<and> (\<forall>controller method classType types s1. parseActionType message = Inr (controller, method) \<longrightarrow>
       controllers s controller = Some classType \<longrightarrow>
       loadTypes controller method s = Inr (types, s1) \<longrightarrow>
       (\<forall>e. parseArgs message (parameterSchema types) = Inl e \<longrightarrow>
            handleAction message env s = (Some e, s1))
     \<and> (\<forall>args. parseArgs message (parameterSchema types) = Inr args \<longrightarrow>
          (\<forall>e. injector_get env classType = Inl e \<longrightarrow>
               handleAction message env s = (Some e, s1))
        \<and> (\<forall>u. injector_get env classType = Inr u \<longrightarrow>
             (\<forall>e. getXToClassFunction env (parametersDeserialize types) args = Inl e \<longrightarrow>
                  handleAction message env s = (Some e, s1))
           \<and> (\<forall>converted.
                 getXToClassFunction env (parametersDeserialize types) args = Inr converted \<longrightarrow>
                 jitValidate env (parametersValidate types) converted = [] \<longrightarrow>
                 fst (handleAction message env s) = None
               \<and> (case tryBlock message env controller method classType types converted s1 of
                    (Some e, s2) \<Rightarrow>
                      out (snd (handleAction message env s)) = out s2 @ [error_frame (mid message) e]
                    \<and> filter is_error_frame (emitted s (snd (handleAction message env s)))
                        = [error_frame (mid message) e]
                  | (None, s2) \<Rightarrow>
                      snd (handleAction message env s) = s2
                    \<and> filter is_error_frame (emitted s s2) = [])
               \<and> (\<forall>e. invoke env classType method converted = Inl e \<longrightarrow>
                      emitted s (snd (handleAction message env s)) = [error_frame (mid message) e])))))
 \<and> (\<forall>e. fst (handleAction message env s) = Some e \<longrightarrow>
       emitted s (snd (handleAction message env s)) = []
     \<and> invoked (snd (handleAction message env s)) = invoked s)"
proof (intro conjI allI impI)
  fix e assume "parseActionType message = Inl e"
  then show "handleAction message env s = (Some e, s)" by (simp add: handleAction_def)
next
  fix controller mname
  assume "parseActionType message = Inr (controller, mname)" "controllers s controller = None"
  then show "handleAction message env s =
      (Some (Error (''No controller registered for id '' @ controller)), s)"
    by (simp add: handleAction_def)
next
  fix controller mname classType e
  assume "parseActionType message = Inr (controller, mname)"
    "controllers s controller = Some classType" "loadTypes controller mname s = Inl e"
  then show "handleAction message env s = (Some e, s)" by (simp add: handleAction_def)
next
  fix controller mname classType types s1 e
  assume "parseActionType message = Inr (controller, mname)"
    "controllers s controller = Some classType" "loadTypes controller mname s = Inr (types, s1)"
    "parseArgs message (parameterSchema types) = Inl e"
  then show "handleAction message env s = (Some e, s1)" by (simp add: handleAction_def)
next
  fix controller mname classType types s1 args e
  assume "parseActionType message = Inr (controller, mname)"
    "controllers s controller = Some classType" "loadTypes controller mname s = Inr (types, s1)"
    "parseArgs message (parameterSchema types) = Inr args" "injector_get env classType = Inl e"
  then show "handleAction message env s = (Some e, s1)" by (simp add: handleAction_def)
next
  fix controller mname classType types s1 args u e
  assume "parseActionType message = Inr (controller, mname)"
    "controllers s controller = Some classType" "loadTypes controller mname s = Inr (types, s1)"
    "parseArgs message (parameterSchema types) = Inr args" "injector_get env classType = Inr u"
    "getXToClassFunction env (parametersDeserialize types) args = Inl e"
  then show "handleAction message env s = (Some e, s1)" by (simp add: handleAction_def)
next
  fix controller mname classType types s1 args u converted
  assume a: "parseActionType message = Inr (controller, mname)"
    "controllers s controller = Some classType" "loadTypes controller mname s = Inr (types, s1)"
    "parseArgs message (parameterSchema types) = Inr args" "injector_get env classType = Inr u"
    "getXToClassFunction env (parametersDeserialize types) args = Inr converted"
    "jitValidate env (parametersValidate types) converted = []"
  let ?t = "tryBlock message env controller mname classType types converted s1"
  have h: "handleAction message env s = (None, catchBlock message ?t)"
    using a by (rule handleAction_try)
  show "fst (handleAction message env s) = None" by (simp add: h)
  have o1: "out s1 = out s" by (rule loadTypes_fields[OF a(3)])
  have pre: "out (snd ?t) = out s @ emitted s1 (snd ?t)"
    using tryBlock_out_prefix[of message env controller mname classType types converted s1] o1
    by simp
  have noerr: "filter is_error_frame (emitted s1 (snd ?t)) = []"
    by (rule tryBlock_no_error_frame)
  show "case ?t of
          (Some e, s2) \<Rightarrow>
            out (snd (handleAction message env s)) = out s2 @ [error_frame (mid message) e]
          \<and> filter is_error_frame (emitted s (snd (handleAction message env s)))
              = [error_frame (mid message) e]
        | (None, s2) \<Rightarrow>
            snd (handleAction message env s) = s2
          \<and> filter is_error_frame (emitted s s2) = []"
  proof (cases ?t)
    case (Pair x s2)
    have pre2: "out s2 = out s @ emitted s1 s2" using pre Pair by simp
    have noerr2: "filter is_error_frame (emitted s1 s2) = []" using noerr Pair by simp
    show ?thesis
    proof (cases x)
      case None
      have "emitted s s2 = emitted s1 s2" by (simp add: emitted_def o1)
      then show ?thesis using Pair None h noerr2 by (simp add: catchBlock_def)
    next
      case (Some e)
      have "out (snd (handleAction message env s)) = out s @ (emitted s1 s2 @ [error_frame (mid message) e])"
        using Pair Some h pre2 by (simp add: catchBlock_def error_frame_def)
      then have "emitted s (snd (handleAction message env s)) =
          emitted s1 s2 @ [error_frame (mid message) e]"
        by (rule emitted_append)
      then show ?thesis using Pair Some h noerr2
        by (simp add: catchBlock_def error_frame_def is_error_frame_def)
    qed
  qed
  fix e assume "invoke env classType mname converted = Inl e"
  then show "emitted s (snd (handleAction message env s)) = [error_frame (mid message) e]"
    using h o1 by (simp add: tryBlock_def catchBlock_def error_frame_def emitted_def)
next
  fix e assume "fst (handleAction message env s) = Some e"
  then show "emitted s (snd (handleAction message env s)) = []"
    by (simp add: emitted_def handleAction_escape_no_frame)
next
  fix e assume "fst (handleAction message env s) = Some e"
  then show "invoked (snd (handleAction message env s)) = invoked s"
    by (rule handleAction_escape_no_frame)
qed


theorem handleAction_catch_scope_witness:
  "emitted ex_init (snd (handleAction (ex_action 7 ''add'') (ex_env [] (Inl (Error ''boom''))) ex_init))
     = [error_frame 7 (Error ''boom'')]
   \<and> fst (handleAction (ex_action 7 ''add'') (ex_env [] (Inl (Error ''boom''))) ex_init) = None
   \<and> handleAction (ex_action 7 ''add'') ex_env_no_injector ex_init
       = (Some (Error ''no provider''),
          snd (handleAction (ex_action 7 ''add'') ex_env_no_injector ex_init))
   \<and> emitted ex_init (snd (handleAction (ex_action 7 ''add'') ex_env_no_injector ex_init)) = []"
proof -
  obtain t s1 where l: "loadTypes ''c1'' ''add'' ex_init = Inr (t, s1)"
    by (simp add: loadTypes_def ex_init_def init_def ex_class_def unwrapResult_def Let_def)
  have c: "controllers ex_init ''c1'' = Some ex_class"
    by (simp add: ex_init_def init_def)
  let ?m = "ex_action 7 ''add''"
  let ?boom = "ex_env [] (Inl (Error ''boom''))"
  have p: "parseActionType ?m = Inr (''c1'', ''add'')"
    and pa: "parseArgs ?m (parameterSchema t) = Inr [''2'', ''3'']"
    and m: "mid ?m = 7"
    by (simp_all add: ex_action_def)
  have ig: "injector_get ?boom ex_class = Inr ()"
    and cv: "getXToClassFunction ?boom (parametersDeserialize t) [''2'', ''3''] = Inr [''2'', ''3'']"
    and jv: "jitValidate ?boom (parametersValidate t) [''2'', ''3''] = []"
    and iv: "invoke ?boom ex_class ''add'' [''2'', ''3''] = Inl (Error ''boom'')"
    by (simp_all add: ex_env_def)
  have ni: "injector_get ex_env_no_injector ex_class = Inl (Error ''no provider'')"
    by (simp add: ex_env_no_injector_def)
  have 1: "fst (handleAction ?m ?boom ex_init) = None
      \<and> emitted ex_init (snd (handleAction ?m ?boom ex_init)) = [error_frame (mid ?m) (Error ''boom'')]"
    using handleAction_catch_scope [of ?m ?boom ex_init] p c l pa ig cv jv iv by blast
  have 2: "handleAction ?m ex_env_no_injector ex_init = (Some (Error ''no provider''), s1)"
    using handleAction_catch_scope [of ?m ex_env_no_injector ex_init] p c l pa ni by blast
  have 3: "emitted ex_init (snd (handleAction ?m ex_env_no_injector ex_init)) = []"
    using handleAction_catch_scope [of ?m ex_env_no_injector ex_init] 2 by simp
  show ?thesis using 1 2 3 m by simp
qed

text \<open>
  C2 as stated fails: a call that names a controller that is not registered makes
  \<^verbatim>\<open>handleAction\<close> end with the exception of line 216, and no frame is written.
\<close>

theorem handleAction_escape_counterexample:
  "handleAction
     \<lparr>mid = 1, mtype = Action, parseActionType = Inr (''nope'', ''add''),
      parseArgs = (\<lambda>schema. Inr []), parseSubscribeId = Inl (Error ''no id'')\<rparr>
     (ex_env [] (Inr ex_plain)) ex_init
   = (Some (Error ''No controller registered for id nope''), ex_init)
   \<and> out ex_init = []"
  by (simp add: handleAction_def ex_init_def init_def)


section \<open>Re-subscribing after an unsubscribe\<close>

lemma handleUnsubscribe_ok:
  assumes "observables s (mid u) = Some entry" and "parseSubscribeId u = Inr b"
    and "subscriptions entry b = Some a"
  shows "fst (handleUnsubscribe u s) = None"
    and "out (snd (handleUnsubscribe u s)) = out s"
    and "observables (snd (handleUnsubscribe u s)) =
           (observables s)(mid u \<mapsto> entry\<lparr>subscriptions := (subscriptions entry)(b := None)\<rparr>)"
    and "length (subObjs (snd (handleUnsubscribe u s))) = length (subObjs s)"
    and "length (rx (snd (handleUnsubscribe u s))) = length (rx s)"
  using assms by (simp_all add: handleUnsubscribe_def Let_def split: option.split)

lemma handleSubscribe_ok:
  assumes "observables s (mid m) = Some entry" and "parseSubscribeId m = Inr b"
    and "subscriptions entry b = None"
  shows "fst (handleSubscribe m sync s) = None"
    and "out (snd (handleSubscribe m sync s)) =
           out s @ map (observer_frame (mid m) b) (delivered sync)"
    and "observables (snd (handleSubscribe m sync s)) =
           (observables s)(mid m \<mapsto>
              entry\<lparr>subscriptions := (subscriptions entry)(b \<mapsto> length (subObjs s))\<rparr>)"
    and "subObjs (snd (handleSubscribe m sync s)) =
           subObjs s @ [\<lparr>active = True, sub = Some (length (rx s))\<rparr>]"
    and "length (rx (snd (handleSubscribe m sync s))) = Suc (length (rx s))"
    and "observer (rx (snd (handleSubscribe m sync s)) ! length (rx s)) =
           SubscriberCb (mid m) b (length (subObjs s))"
proof -
  let ?a = "length (subObjs s)"
  let ?s1 = "s\<lparr>subObjs := subObjs s @ [\<lparr>active = True, sub = None\<rparr>],
               observables := (observables s)(mid m \<mapsto>
                 entry\<lparr>subscriptions := (subscriptions entry)(b \<mapsto> ?a)\<rparr>)\<rparr>"
  let ?s2 = "?s1\<lparr>rx := rx ?s1 @ [\<lparr>observer = SubscriberCb (mid m) b ?a, closed = False\<rparr>]\<rparr>"
  let ?d = "deliver (length (rx s)) sync ?s2"
  have h: "handleSubscribe m sync s =
      (None, ?d\<lparr>subObjs := (subObjs ?d)[?a := (subObjs ?d ! ?a)\<lparr>sub := Some (length (rx s))\<rparr>]\<rparr>)"
    using assms by (simp add: handleSubscribe_def rx_subscribe_eq Let_def)
  have o: "out ?d = out ?s2 @ map (observer_frame (mid m) b) (delivered sync)"
    by (rule deliver_subscriber_out[where a = ?a]) simp_all
  show "fst (handleSubscribe m sync s) = None" by (simp add: h)
  show "out (snd (handleSubscribe m sync s)) =
          out s @ map (observer_frame (mid m) b) (delivered sync)"
    using o by (simp add: h)
  show "observables (snd (handleSubscribe m sync s)) =
          (observables s)(mid m \<mapsto>
             entry\<lparr>subscriptions := (subscriptions entry)(b \<mapsto> length (subObjs s))\<rparr>)"
    by (simp add: h)
  show "subObjs (snd (handleSubscribe m sync s)) =
          subObjs s @ [\<lparr>active = True, sub = Some (length (rx s))\<rparr>]"
    by (simp add: h)
  show "length (rx (snd (handleSubscribe m sync s))) = Suc (length (rx s))"
    by (simp add: h)
  show "observer (rx (snd (handleSubscribe m sync s)) ! length (rx s)) =
          SubscriberCb (mid m) b (length (subObjs s))"
    by (simp add: h)
qed

text \<open>
  C10. On a call with a registered observable entry in which subscription \<open>subID\<close> is
  present, an \<^verbatim>\<open>ActionObservableUnsubscribe\<close> for \<open>subID\<close> followed by an
  \<^verbatim>\<open>ActionObservableSubscribe\<close> with the same \<open>subID\<close> succeeds: the second message
  returns normally, the only frames it writes forward what the source delivers inside
  \<^verbatim>\<open>subscribe\<close> (so no error frame "Subscription already created"), and \<open>subID\<close> is
  registered again with a new \<^verbatim>\<open>sub\<close> object (at an address the store did not have) that
  is active and holds a new subscription whose observer is the one for \<open>subID\<close>.
\<close>

theorem resubscribe_after_unsubscribe:
  assumes "observables s cid = Some entry" and "subscriptions entry subID = Some a"
    and "mid u = cid" and "mtype u = ActionObservableUnsubscribe"
    and "parseSubscribeId u = Inr subID"
    and "mid m = cid" and "mtype m = ActionObservableSubscribe"
    and "parseSubscribeId m = Inr subID"
  shows "fst (handle m sync (snd (handle u sync0 s))) = None
    \<and> emitted (snd (handle u sync0 s)) (snd (handle m sync (snd (handle u sync0 s))))
        = map (observer_frame cid subID) (delivered sync)
    \<and> error_frame cid (Error ''Subscription already created'')
        \<notin> set (emitted (snd (handle u sync0 s)) (snd (handle m sync (snd (handle u sync0 s)))))
    \<and> (\<exists>entry2. observables (snd (handle m sync (snd (handle u sync0 s)))) cid = Some entry2
          \<and> subscriptions entry2 subID = Some (length (subObjs s)))
    \<and> subObjs (snd (handle m sync (snd (handle u sync0 s)))) ! length (subObjs s)
        = \<lparr>active = True, sub = Some (length (rx s))\<rparr>
    \<and> length (subObjs (snd (handle m sync (snd (handle u sync0 s))))) = Suc (length (subObjs s))
    \<and> length (rx (snd (handle m sync (snd (handle u sync0 s))))) = Suc (length (rx s))
    \<and> observer (rx (snd (handle m sync (snd (handle u sync0 s)))) ! length (rx s))
        = SubscriberCb cid subID (length (subObjs s))"
proof -
  let ?s1 = "snd (handle u sync0 s)"
  let ?entry1 = "entry\<lparr>subscriptions := (subscriptions entry)(subID := None)\<rparr>"
  have hu: "handle u sync0 s = handleUnsubscribe u s"
    using assms(4) by (simp add: handle_def)
  have e: "observables s (mid u) = Some entry" using assms(1,3) by simp
  note un = handleUnsubscribe_ok[OF e assms(5) assms(2)]
  have o1: "observables ?s1 (mid m) = Some ?entry1"
    using un(3) assms(3,6) by (simp add: hu)
  have n1: "subscriptions ?entry1 subID = None" by simp
  have hm: "handle m sync ?s1 = handleSubscribe m sync ?s1"
    using assms(7) by (simp add: handle_def)
  note su = handleSubscribe_ok[OF o1 assms(8) n1, of sync]
  have l1: "length (subObjs ?s1) = length (subObjs s)" "length (rx ?s1) = length (rx s)"
    using un(4,5) by (simp_all add: hu)
  have em: "emitted ?s1 (snd (handle m sync ?s1)) = map (observer_frame cid subID) (delivered sync)"
    using su(2) assms(6) by (simp add: hm emitted_def)
  have ne: "error_frame cid (Error ''Subscription already created'')
      \<notin> set (map (observer_frame cid subID) (delivered sync))"
  proof
    assume "error_frame cid (Error ''Subscription already created'')
      \<in> set (map (observer_frame cid subID) (delivered sync))"
    then obtain n where "error_frame cid (Error ''Subscription already created'')
        = observer_frame cid subID n" by auto
    then have "ftype (observer_frame cid subID n) = RpcTypes_Error"
      by (metis error_frame_def frame.select_convs(2))
    then show False by simp
  qed
  show ?thesis
    using su(1) em ne su(3) su(4) su(5) su(6) l1 assms(6)
    by (simp add: hm nth_append)
qed

theorem resubscribe_after_unsubscribe_witness:
  "fst (handle (ex_control 4 ActionObservableSubscribe 1) [Next ''A'']
          (snd (handle (ex_control 4 ActionObservableUnsubscribe 1) [] ex_subscribed))) = None
   \<and> emitted (snd (handle (ex_control 4 ActionObservableUnsubscribe 1) [] ex_subscribed))
        (snd (handle (ex_control 4 ActionObservableSubscribe 1) [Next ''A'']
          (snd (handle (ex_control 4 ActionObservableUnsubscribe 1) [] ex_subscribed))))
      = [\<lparr>fid = 4, ftype = ResponseActionObservableNext, fbody = Single (BodyNext 1 ''A'')\<rparr>]
   \<and> subObjs (snd (handle (ex_control 4 ActionObservableSubscribe 1) [Next ''A'']
          (snd (handle (ex_control 4 ActionObservableUnsubscribe 1) [] ex_subscribed)))) ! 1
      = \<lparr>active = True, sub = Some 1\<rparr>"
proof -
  have s: "observables ex_subscribed 4 =
      Some \<lparr>observable = ex_observable, subscriptions = [1 \<mapsto> 0],
            entryNextSchema = observableNextSchema (the (cachedActionsTypes ex_subscribed ''c1!watch''))\<rparr>"
    and l: "length (subObjs ex_subscribed) = 1" "length (rx ex_subscribed) = 1"
    by (simp_all add: ex_subscribed_def run_def ex_init_def init_def ex_action_def ex_env_def
        ex_control_def ex_class_def ex_observable_def ex_plain_def handleAction_def loadTypes_def
        unwrapResult_def Let_def catchBlock_def tryBlock_def handleResult_def
        handleObservable_def handle_def handleSubscribe_def rx_subscribe_eq)
  show ?thesis
    using resubscribe_after_unsubscribe [OF s, of 1 0 "ex_control 4 ActionObservableUnsubscribe 1"
        "ex_control 4 ActionObservableSubscribe 1" "[Next ''A'']" "[]"] l
    by (simp add: ex_control_def)
qed


section \<open>Runs: the output only grows, the controllers stay\<close>

lemma run_simps [simp]:
  "run [] s = s" "run (e # es) s = run es (step e s)" "run (es @ es') s = run es' (run es s)"
  by (simp_all add: run_def)

lemma run_observer_prefix: "prefix (out s) (out (run_observer c n s))"
  by (cases c; cases n) simp_all

lemma run_batch_prefix: "prefix (out s) (out (run_batch c es a st s))"
  by (cases c) simp_all

lemma rx_notify_prefix: "prefix (out s) (out (rx_notify h n s))"
proof -
  have "prefix (out (case n of Next v \<Rightarrow> s | Failed e \<Rightarrow> rx_close h s | Complete \<Rightarrow> rx_close h s))
          (out (run_observer (observer (rx s ! h)) n
             (case n of Next v \<Rightarrow> s | Failed e \<Rightarrow> rx_close h s | Complete \<Rightarrow> rx_close h s)))"
    by (rule run_observer_prefix)
  then show ?thesis by (cases n) (simp_all add: rx_notify_def)
qed

lemma deliver_prefix: "prefix (out s) (out (deliver h ns s))"
proof (induction ns arbitrary: s)
  case Nil
  then show ?case by simp
next
  case (Cons n ns)
  have "prefix (out s) (out (rx_notify h n s))" by (rule rx_notify_prefix)
  also have "prefix \<dots> (out (deliver h ns (rx_notify h n s)))" by (rule Cons.IH)
  finally show ?case by simp
qed

lemma handle_fields [simp]:
  "cachedActionsTypes (snd (handle m sync s)) = cachedActionsTypes s"
  "controllers (snd (handle m sync s)) = controllers s"
  "invoked (snd (handle m sync s)) = invoked s"
  by (simp_all add: handle_def handleSubscribe_def handleUnsubscribe_def
      handleCollectionUnsubscribe_def handleSubjectUnsubscribe_def rx_subscribe_eq Let_def
      split: rpc_types.split option.split sum.split)

lemma handleSubscribe_prefix: "prefix (out s) (out (snd (handleSubscribe m sync s)))"
proof -
  have "\<And>e b. prefix (out s) (out (deliver (length (rx s)) sync
      (s\<lparr>subObjs := subObjs s @ [\<lparr>active = True, sub = None\<rparr>],
         observables := (observables s)(mid m \<mapsto> e\<lparr>subscriptions := (subscriptions e)(b \<mapsto> length (subObjs s))\<rparr>),
         rx := rx s @ [\<lparr>observer = SubscriberCb (mid m) b (length (subObjs s)), closed = False\<rparr>]\<rparr>)))"
    using deliver_prefix[of "s\<lparr>subObjs := _, observables := _, rx := _\<rparr>"] by simp
  then show ?thesis
    by (simp add: handleSubscribe_def rx_subscribe_eq Let_def split: option.split sum.split)
qed

lemma handle_prefix: "prefix (out s) (out (snd (handle m sync s)))"
  using handleSubscribe_prefix[of s m sync]
  by (simp add: handle_def handleUnsubscribe_def handleCollectionUnsubscribe_def
      handleSubjectUnsubscribe_def Let_def split: rpc_types.split option.split sum.split)

lemma handleActionTypes_prefix: "prefix (out s) (out (snd (handleActionTypes m s)))"
  by (auto simp: handleActionTypes_def loadTypes_fields split: sum.split prod.split)

lemma handleActionTypes_fields [simp]:
  "controllers (snd (handleActionTypes m s)) = controllers s"
  by (auto simp: handleActionTypes_def loadTypes_fields split: sum.split prod.split)

lemma handleAction_cases:
  obtains (escape) "out (snd (handleAction message env s)) = out s"
      "controllers (snd (handleAction message env s)) = controllers s"
      "same_tables s (snd (handleAction message env s))"
      "invoked (snd (handleAction message env s)) = invoked s"
      "cachedActionsTypes (snd (handleAction message env s)) = cachedActionsTypes s
       \<or> (\<exists>c m t s1. loadTypes c m s = Inr (t, s1)
            \<and> cachedActionsTypes (snd (handleAction message env s)) = cachedActionsTypes s1)"
  | (invalid) c m t s1 errors where "loadTypes c m s = Inr (t, s1)"
      "snd (handleAction message env s) = response_error (mid message) (ValidationError errors) s1"
  | (tried) c m ct t s1 conv where "loadTypes c m s = Inr (t, s1)"
      "snd (handleAction message env s) =
         catchBlock message (tryBlock message env c m ct t conv s1)"
proof (cases "parseActionType message")
  case (Inl e1)
  then show ?thesis using escape by (simp add: handleAction_def same_tables_def)
next
  case (Inr cm)
  obtain c m where cm: "cm = (c, m)" by (cases cm)
  show ?thesis
  proof (cases "controllers s c")
    case None
    then show ?thesis using Inr cm escape by (simp add: handleAction_def same_tables_def)
  next
    case (Some ct)
    show ?thesis
    proof (cases "loadTypes c m s")
      case (Inl e1)
      then show ?thesis using Inr cm Some escape by (simp add: handleAction_def same_tables_def)
    next
      case lt: (Inr ts)
      obtain t s1 where ts: "ts = (t, s1)" by (cases ts)
      have l: "loadTypes c m s = Inr (t, s1)" using lt ts by simp
      note f = loadTypes_fields(1)[OF l] loadTypes_fields(5)[OF l] loadTypes_fields(9)[OF l]
      have "same_tables s s1" by (simp add: same_tables_def loadTypes_fields[OF l])
      then have esc: "snd (handleAction message env s) = s1 \<Longrightarrow> ?thesis"
        using escape f l by auto
      show ?thesis
      proof (cases "parseArgs message (parameterSchema t)")
        case (Inl e1)
        then show ?thesis using Inr cm Some l esc by (simp add: handleAction_def)
      next
        case pa: (Inr args)
        show ?thesis
        proof (cases "injector_get env ct")
          case (Inl e1)
          then show ?thesis using Inr cm Some l pa esc by (simp add: handleAction_def)
        next
          case ig: (Inr u)
          show ?thesis
          proof (cases "getXToClassFunction env (parametersDeserialize t) args")
            case (Inl e1)
            then show ?thesis using Inr cm Some l pa ig esc by (simp add: handleAction_def)
          next
            case cv: (Inr conv)
            show ?thesis
            proof (cases "jitValidate env (parametersValidate t) conv = []")
              case True
              then show ?thesis using Inr cm Some l pa ig cv tried[OF l]
                by (simp add: handleAction_def)
            next
              case False
              then show ?thesis using Inr cm Some l pa ig cv invalid[OF l]
                by (simp add: handleAction_def)
            qed
          qed
        qed
      qed
    qed
  qed
qed

lemma catch_tryBlock_prefix:
  "prefix (out s) (out (catchBlock message (tryBlock message env c m ct t conv s)))"
proof -
  have "prefix (out s) (out (snd (tryBlock message env c m ct t conv s)))"
    using tryBlock_out_prefix[of message env c m ct t conv s] by (metis prefixI)
  moreover have "prefix (out (snd (tryBlock message env c m ct t conv s)))
      (out (catchBlock message (tryBlock message env c m ct t conv s)))"
    by (simp add: catchBlock_def split: prod.split option.split)
  ultimately show ?thesis by (rule prefix_order.trans)
qed

lemma tryBlock_fields [simp]:
  "controllers (snd (tryBlock message env c m ct t conv s)) = controllers s"
  "subObjs (snd (tryBlock message env c m ct t conv s)) = subObjs s"
  "collectionsClosed (snd (tryBlock message env c m ct t conv s)) = collectionsClosed s"
  by (simp_all add: tryBlock_def Let_def split: sum.split)

lemma handleAction_prefix: "prefix (out s) (out (snd (handleAction message env s)))"
proof (cases rule: handleAction_cases[of message env s])
  case escape
  then show ?thesis by simp
next
  case (invalid c m t s1 errors)
  then show ?thesis by (simp add: loadTypes_fields(1)[OF invalid(1)])
next
  case (tried c m ct t s1 conv)
  then show ?thesis
    using catch_tryBlock_prefix[of s1 message env c m ct t conv]
    by (simp add: loadTypes_fields(1)[OF tried(1)])
qed

lemma handleAction_controllers [simp]:
  "controllers (snd (handleAction message env s)) = controllers s"
proof (cases rule: handleAction_cases[of message env s])
  case escape
  then show ?thesis by simp
next
  case (invalid c m t s1 errors)
  then show ?thesis by (simp add: loadTypes_fields(5)[OF invalid(1)])
next
  case (tried c m ct t s1 conv)
  then show ?thesis by (simp add: loadTypes_fields(5)[OF tried(1)])
qed

lemma step_prefix: "prefix (out s) (out (step e s))"
proof (cases e)
  case (ActionMessage m env)
  then show ?thesis by (simp add: handleAction_prefix)
next
  case (ActionTypeMessage m)
  then show ?thesis by (simp add: handleActionTypes_prefix)
next
  case (ControlMessage m sync)
  then show ?thesis by (simp add: handle_prefix)
next
  case (Notify h n)
  then show ?thesis by (simp add: rx_notify_prefix)
next
  case (InFlight h v)
  then show ?thesis by (simp add: run_observer_prefix)
next
  case (Batch h evs a st)
  then show ?thesis by (simp add: run_batch_prefix)
qed

lemma run_prefix: "prefix (out s) (out (run es s))"
proof (induction es arbitrary: s)
  case Nil
  then show ?case by simp
next
  case (Cons e es)
  have "prefix (out s) (out (step e s))" by (rule step_prefix)
  also have "prefix \<dots> (out (run es (step e s)))" by (rule Cons.IH)
  finally show ?case by simp
qed

lemma step_controllers [simp]: "controllers (step e s) = controllers s"
  by (cases e) simp_all

lemma run_controllers [simp]: "controllers (run es s) = controllers s"
  by (induction es arbitrary: s) simp_all


section \<open>The type cache\<close>

lemma getProperty_as_v: "getProperty (registerProperty createClassSchema (as_v u)) ''v'' = Inr (as_v u)"
  by (simp add: getProperty_def registerProperty_def createClassSchema_def as_v_def)

lemma loadTypes_cache:
  assumes "loadTypes c m s = Inr (t, s1)"
  shows "cachedActionsTypes s1 (c @ ''!'' @ m) = Some t"
    and "cachedActionsTypes s1 = cachedActionsTypes s
       \<or> (cachedActionsTypes s (c @ ''!'' @ m) = None
          \<and> cachedActionsTypes s1 = (cachedActionsTypes s)(c @ ''!'' @ m \<mapsto> t)
          \<and> (\<exists>u. resultSchema t = registerProperty createClassSchema (as_v u))
          \<and> collectionSchema t = None)"
  using assms
  by (auto simp: loadTypes_def Let_def split: option.splits if_splits sum.splits)

lemma cache_ok_loadTypes:
  assumes "cache_ok s" and "loadTypes c m s = Inr (t, s1)"
  shows "cache_ok s1" and "\<exists>p. getProperty (resultSchema t) ''v'' = Inr p"
proof -
  show "cache_ok s1"
    using loadTypes_cache(2)[OF assms(2)] assms(1)
    by (auto simp: cache_ok_def getProperty_as_v split: if_splits)
  then show "\<exists>p. getProperty (resultSchema t) ''v'' = Inr p"
    using loadTypes_cache(1)[OF assms(2)] by (auto simp: cache_ok_def)
qed

lemma ensureCollectionSchema_cache:
  "cachedActionsTypes (snd (ensureCollectionSchema k t s)) = cachedActionsTypes s
   \<or> (collectionSchema t = None
      \<and> (\<exists>cs. cachedActionsTypes (snd (ensureCollectionSchema k t s)) =
            (cachedActionsTypes s)(k \<mapsto> t\<lparr>collectionSchema := Some cs\<rparr>)))"
  by (auto simp: ensureCollectionSchema_def split: option.splits sum.splits)

lemma ensureCollectionSchema_ok:
  assumes "collectionSchema t \<noteq> None \<or> (\<exists>p. getProperty (resultSchema t) ''v'' = Inr p)"
  shows "fst (ensureCollectionSchema k t s) = None"
  using assms by (auto simp: ensureCollectionSchema_def split: option.splits sum.splits)

lemma handleCollection_cache:
  "cachedActionsTypes (snd (handleCollection i k t r s)) =
     cachedActionsTypes (snd (ensureCollectionSchema k t s))"
  by (rule handleCollection_cases[of k t s i r]) simp_all

lemma handleResult_cache:
  "cachedActionsTypes (snd (handleResult i k t r s)) = cachedActionsTypes s
   \<or> (collectionSchema t = None
      \<and> (\<exists>cs. cachedActionsTypes (snd (handleResult i k t r s)) =
            (cachedActionsTypes s)(k \<mapsto> t\<lparr>collectionSchema := Some cs\<rparr>)))"
  using ensureCollectionSchema_cache[of k t s]
  by (simp add: handleResult_def handleCollection_cache)

lemma tryBlock_cache:
  "cachedActionsTypes (snd (tryBlock message env c m ct t conv s)) = cachedActionsTypes s
   \<or> (collectionSchema t = None
      \<and> (\<exists>cs. cachedActionsTypes (snd (tryBlock message env c m ct t conv s)) =
            (cachedActionsTypes s)(c @ ''!'' @ m \<mapsto> t\<lparr>collectionSchema := Some cs\<rparr>)))"
proof (cases "invoke env ct m conv")
  case (Inl e)
  then show ?thesis by (simp add: tryBlock_def)
next
  case (Inr r)
  show ?thesis
    using Inr handleResult_cache[of "mid message" "c @ ''!'' @ m" t r
        "s\<lparr>invoked := invoked s @ [(c, m, conv)]\<rparr>"]
    by (simp add: tryBlock_def)
qed

text \<open>
  What \<^verbatim>\<open>handleAction\<close> does to the cache: nothing, or the insertion of \<^verbatim>\<open>loadTypes\<close>,
  followed or not by the assignment of \<^verbatim>\<open>collectionSchema\<close> to the entry just loaded.
\<close>

lemma handleAction_cache:
  obtains (same) "cachedActionsTypes (snd (handleAction message env s)) = cachedActionsTypes s"
  | (loaded) c m t s1 where "loadTypes c m s = Inr (t, s1)"
      "cachedActionsTypes (snd (handleAction message env s)) = cachedActionsTypes s1"
  | (assigned) c m t s1 cs where "loadTypes c m s = Inr (t, s1)" "collectionSchema t = None"
      "cachedActionsTypes (snd (handleAction message env s)) =
         (cachedActionsTypes s1)(c @ ''!'' @ m \<mapsto> t\<lparr>collectionSchema := Some cs\<rparr>)"
proof (cases rule: handleAction_cases[of message env s])
  case escape
  then show ?thesis using same loaded by blast
next
  case (invalid c m t s1 errors)
  then show ?thesis using loaded[of c m t s1] by simp
next
  case (tried c m ct t s1 conv)
  then show ?thesis
    using tryBlock_cache[of message env c m ct t conv s1] loaded[of c m t s1]
      assigned[of c m t s1]
    by auto
qed

lemma handleActionTypes_cache:
  "cachedActionsTypes (snd (handleActionTypes message s)) = cachedActionsTypes s
   \<or> (\<exists>c m t s1. loadTypes c m s = Inr (t, s1)
        \<and> cachedActionsTypes (snd (handleActionTypes message s)) = cachedActionsTypes s1)"
  by (auto simp: handleActionTypes_def split: sum.splits prod.splits)

lemma cache_ok_step: "cache_ok s \<Longrightarrow> cache_ok (step e s)"
proof (cases e)
  case (ActionMessage message env)
  assume ok: "cache_ok s"
  show ?thesis
  proof (cases rule: handleAction_cache[of message env s])
    case same
    then show ?thesis using ok ActionMessage by (simp add: cache_ok_def)
  next
    case (loaded c m t s1)
    then show ?thesis using cache_ok_loadTypes(1)[OF ok loaded(1)] ActionMessage
      by (simp add: cache_ok_def)
  next
    case (assigned c m t s1 cs)
    then show ?thesis
      using cache_ok_loadTypes[OF ok assigned(1)] ActionMessage
      by (auto simp: cache_ok_def)
  qed
next
  case (ActionTypeMessage message)
  assume ok: "cache_ok s"
  show ?thesis
    using handleActionTypes_cache[of message s] ok ActionTypeMessage cache_ok_loadTypes(1)[OF ok]
    by (auto simp: cache_ok_def)
qed (simp_all add: cache_ok_def)

lemma cache_ok_run: "cache_ok s \<Longrightarrow> cache_ok (run es s)"
  by (induction es arbitrary: s) (simp_all add: cache_ok_step)

lemma reachable_cache_ok: "reachable s \<Longrightarrow> cache_ok s"
proof -
  assume "reachable s"
  then obtain cs es where s: "s = run es (init cs)" by (auto simp: reachable_def)
  have "cache_ok (init cs)" by (simp add: cache_ok_def init_def)
  then show "cache_ok s" unfolding s by (rule cache_ok_run)
qed

lemma reachable_init: "reachable (init cs)"
  unfolding reachable_def by (rule exI[of _ cs], rule exI[of _ "[]"]) simp

lemma reachable_run: "reachable s \<Longrightarrow> reachable (run es s)"
  unfolding reachable_def
proof -
  assume "\<exists>cs es. s = run es (init cs)"
  then obtain cs es0 where "s = run es0 (init cs)" by blast
  then have "run es s = run (es0 @ es) (init cs)" by simp
  then show "\<exists>cs es'. run es s = run es' (init cs)" by blast
qed


section \<open>The classification of the result\<close>

lemma classify_eq:
  "classify r =
     (if instEntitySubject r then EntitySubjectBranch
      else if instCollection r then CollectionBranch
      else if instObservable r then ObservableBranch else PlainBranch)"
  by (simp add: classify_def classification_order_def)

lemma is_marker_simps [simp]:
  "is_marker \<lparr>fid = i, ftype = ResponseEntity, fbody = b\<rparr>"
  "is_marker \<lparr>fid = i, ftype = ResponseActionSimple, fbody = b\<rparr>"
  "is_marker (opening_frame i r)"
  "is_marker (announcement i k)"
  "\<not> is_marker (observer_frame i j n)"
  by (cases n; simp add: is_marker_def classification_order_def opening_frame_def announcement_def)+

lemma handleResult_ok:
  assumes "collectionSchema t \<noteq> None \<or> (\<exists>p. getProperty (resultSchema t) ''v'' = Inr p)"
  shows "fst (handleResult i k t r s) = None"
proof -
  have "fst (ensureCollectionSchema k t s) = None"
    using assms by (rule ensureCollectionSchema_ok)
  then have "fst (handleCollection i k t r s) = None"
    by (cases rule: handleCollection_cases[of k t s i r]) simp_all
  then show ?thesis by (simp add: handleResult_def)
qed

lemma handleObservable_observables:
  "observables (handleObservable i t r s) =
     (observables s)(i \<mapsto> \<lparr>observable = r, subscriptions = Map.empty,
                            entryNextSchema = observableNextSchema t\<rparr>)"
  by (simp add: handleObservable_def rx_subscribe_eq Let_def)

lemma handleCollection_collections:
  assumes "fst (handleCollection i k t r s) = None"
  shows "collections (snd (handleCollection i k t r s)) =
           (collections s)(i \<mapsto> \<lparr>flagOf = length (unsubscribedVars s), eventsSub = length (rx s),
                                  collectionOf = r\<rparr>)"
  using assms by (cases rule: handleCollection_cases[of k t s i r]) simp_all

text \<open>
  When every step before the \<^verbatim>\<open>try\<close> block succeeds and the controller method returns
  \<open>result\<close>, the state after \<^verbatim>\<open>handleAction\<close> is the one the result handler leaves.
\<close>

lemma handleAction_result:
  assumes "parseActionType message = Inr (controller, method)"
    and "controllers s controller = Some classType"
    and "loadTypes controller method s = Inr (types, s1)"
    and "parseArgs message (parameterSchema types) = Inr args"
    and "injector_get env classType = Inr u"
    and "getXToClassFunction env (parametersDeserialize types) args = Inr converted"
    and "jitValidate env (parametersValidate types) converted = []"
    and "invoke env classType method converted = Inr result"
    and "fst (handleResult (mid message) (controller @ ''!'' @ method) types result
            (s1\<lparr>invoked := invoked s1 @ [(controller, method, converted)]\<rparr>)) = None"
  shows "handleAction message env s =
           (None, snd (handleResult (mid message) (controller @ ''!'' @ method) types result
                    (s1\<lparr>invoked := invoked s1 @ [(controller, method, converted)]\<rparr>)))"
proof -
  obtain x s2 where p: "handleResult (mid message) (controller @ ''!'' @ method) types result
      (s1\<lparr>invoked := invoked s1 @ [(controller, method, converted)]\<rparr>) = (x, s2)"
    by (cases "handleResult (mid message) (controller @ ''!'' @ method) types result
      (s1\<lparr>invoked := invoked s1 @ [(controller, method, converted)]\<rparr>)")
  then have "x = None" using assms(9) by simp
  then show ?thesis
    using handleAction_try[OF assms(1-7)] assms(8) p
    by (simp add: tryBlock_def catchBlock_def)
qed

text \<open>
  C3. For a call whose controller method returns a result, \<^verbatim>\<open>handleAction\<close> takes the
  response path of the first branch that matches in the order entity-subject, collection,
  observable, plain: among the frames it writes exactly one opens a response, and it is
  the one of that branch; an entity-subject or plain result is answered with that single
  frame; the table of collections changes in the collection branch only, where the call
  is registered, and the tables of observables in the observable branch only, where the
  call is registered.
\<close>

theorem result_classification:
  assumes "reachable s"
    and "parseActionType message = Inr (controller, method)"
    and "controllers s controller = Some classType"
    and "loadTypes controller method s = Inr (types, s1)"
    and "parseArgs message (parameterSchema types) = Inr args"
    and "injector_get env classType = Inr u"
    and "getXToClassFunction env (parametersDeserialize types) args = Inr converted"
    and "jitValidate env (parametersValidate types) converted = []"
    and "invoke env classType method converted = Inr result"
  shows "map ftype (filter is_marker (emitted s (snd (handleAction message env s))))
           = [marker (classify result)]
    \<and> (classify result = EntitySubjectBranch \<or> classify result = PlainBranch \<longrightarrow>
          emitted s (snd (handleAction message env s)) =
            [\<lparr>fid = mid message, ftype = marker (classify result),
              fbody = Single (BodyV (result_v result))\<rparr>])
    \<and> (classify result \<noteq> CollectionBranch \<longrightarrow>
          collections (snd (handleAction message env s)) = collections s)
    \<and> (classify result \<noteq> ObservableBranch \<longrightarrow>
          observables (snd (handleAction message env s)) = observables s
        \<and> observableSubjects (snd (handleAction message env s)) = observableSubjects s)
    \<and> (classify result = CollectionBranch \<longrightarrow>
          collections (snd (handleAction message env s)) (mid message) =
            Some \<lparr>flagOf = length (unsubscribedVars s), eventsSub = length (rx s),
                  collectionOf = result\<rparr>)
    \<and> (classify result = ObservableBranch \<longrightarrow>
          observables (snd (handleAction message env s)) (mid message) =
            Some \<lparr>observable = result, subscriptions = Map.empty,
                  entryNextSchema = observableNextSchema types\<rparr>)"
proof -
  let ?s = "s1\<lparr>invoked := invoked s1 @ [(controller, method, converted)]\<rparr>"
  let ?h = "handleResult (mid message) (controller @ ''!'' @ method) types result ?s"
  have "\<exists>p. getProperty (resultSchema types) ''v'' = Inr p"
    using cache_ok_loadTypes(2)[OF reachable_cache_ok[OF assms(1)] assms(4)] .
  then have ok: "fst ?h = None" by (intro handleResult_ok) simp
  have h: "handleAction message env s = (None, snd ?h)"
    using assms(2-9) ok by (rule handleAction_result)
  note f = loadTypes_fields[OF assms(4)]
  have o: "out (snd ?h) = out s @
     (if instEntitySubject result then
        [\<lparr>fid = mid message, ftype = ResponseEntity, fbody = Single (BodyV (result_v result))\<rparr>]
      else if instCollection result then [opening_frame (mid message) result]
      else if instObservable result then
        (if instSubject result
         then map (observer_frame (mid message) (mid message)) (delivered (onSubscribe result))
         else [])
          @ [announcement (mid message) (observable_kind result)]
      else [\<lparr>fid = mid message, ftype = ResponseActionSimple,
             fbody = Single (BodyV (result_v result))\<rparr>])"
    using handleResult_out[of "mid message" "controller @ ''!'' @ method" types result ?s] ok f(1)
    by simp
  have c: "fst (handleCollection (mid message) (controller @ ''!'' @ method) types result ?s) = None"
    if "\<not> instEntitySubject result" "instCollection result"
    using ok that by (simp add: handleResult_def)
  have ft: "ftype (opening_frame (mid message) result) = ResponseActionCollection"
    "ftype (announcement (mid message) (observable_kind result)) = ResponseActionObservable"
    by (simp_all add: opening_frame_def announcement_def)
  consider (entity) "instEntitySubject result"
    | (collection) "\<not> instEntitySubject result" "instCollection result"
    | (observable) "\<not> instEntitySubject result" "\<not> instCollection result" "instObservable result"
    | (plain) "\<not> instEntitySubject result" "\<not> instCollection result" "\<not> instObservable result"
    by blast
  then show ?thesis
  proof cases
    case entity
    then show ?thesis
      unfolding h snd_conv emitted_append[OF o] using f
      by (simp add: classify_eq handleResult_def)
  next
    case collection
    then show ?thesis
      unfolding h snd_conv emitted_append[OF o]
      using f c handleCollection_collections[of "mid message" "controller @ ''!'' @ method"
          types result ?s] ft
      by (simp add: classify_eq handleResult_def)
  next
    case observable
    then show ?thesis
      unfolding h snd_conv emitted_append[OF o] using f ft
      by (auto simp: classify_eq handleResult_def handleObservable_observables filter_empty_conv)
  next
    case plain
    then show ?thesis
      unfolding h snd_conv emitted_append[OF o] using f
      by (simp add: classify_eq handleResult_def)
  qed
qed

theorem result_classification_witness:
  "map ftype (filter is_marker (emitted ex_init
      (snd (handleAction (ex_action 9 ''items'') (ex_env [] (Inr ex_collection)) ex_init))))
     = [ResponseActionCollection]
   \<and> observables (snd (handleAction (ex_action 9 ''items'') (ex_env [] (Inr ex_collection)) ex_init))
     = observables ex_init
   \<and> emitted ex_init
      (snd (handleAction (ex_action 7 ''add'')
         (ex_env [] (Inr (ex_behaviorSubject\<lparr>instEntitySubject := True\<rparr>))) ex_init))
     = [\<lparr>fid = 7, ftype = ResponseEntity, fbody = Single (BodyV ''5'')\<rparr>]"
proof -
  obtain t s1 where l: "loadTypes ''c1'' ''items'' ex_init = Inr (t, s1)"
    by (simp add: loadTypes_def ex_init_def init_def ex_class_def unwrapResult_def Let_def)
  obtain t' s1' where l': "loadTypes ''c1'' ''add'' ex_init = Inr (t', s1')"
    by (simp add: loadTypes_def ex_init_def init_def ex_class_def unwrapResult_def Let_def)
  have c: "controllers ex_init ''c1'' = Some ex_class"
    by (simp add: ex_init_def init_def)
  have r: "reachable ex_init" unfolding ex_init_def by (rule reachable_init)
  have k: "classify ex_collection = CollectionBranch"
    "classify (ex_behaviorSubject\<lparr>instEntitySubject := True\<rparr>) = EntitySubjectBranch"
    "result_v (ex_behaviorSubject\<lparr>instEntitySubject := True\<rparr>) = ''5''"
    by (simp_all add: classify_eq ex_collection_def ex_behaviorSubject_def ex_plain_def)
  have 1: "map ftype (filter is_marker (emitted ex_init
      (snd (handleAction (ex_action 9 ''items'') (ex_env [] (Inr ex_collection)) ex_init))))
     = [ResponseActionCollection]
   \<and> observables (snd (handleAction (ex_action 9 ''items'') (ex_env [] (Inr ex_collection)) ex_init))
     = observables ex_init"
    using result_classification [OF r _ c l, of "ex_action 9 ''items''" "[''2'', ''3'']"
        "ex_env [] (Inr ex_collection)" "()" "[''2'', ''3'']" ex_collection] k
    by (simp add: ex_action_def ex_env_def)
  have 2: "emitted ex_init
      (snd (handleAction (ex_action 7 ''add'')
         (ex_env [] (Inr (ex_behaviorSubject\<lparr>instEntitySubject := True\<rparr>))) ex_init))
     = [\<lparr>fid = 7, ftype = ResponseEntity, fbody = Single (BodyV ''5'')\<rparr>]"
    using result_classification [OF r _ c l', of "ex_action 7 ''add''" "[''2'', ''3'']"
        "ex_env [] (Inr (ex_behaviorSubject\<lparr>instEntitySubject := True\<rparr>))" "()" "[''2'', ''3'']"
        "ex_behaviorSubject\<lparr>instEntitySubject := True\<rparr>"] k
    by (simp add: ex_action_def ex_env_def)
  show ?thesis using 1 2 by simp
qed


section \<open>The opening frame of a collection\<close>

text \<open>
  C7. For a call whose id has no frame yet and whose controller method returns a
  collection, \<^verbatim>\<open>handleAction\<close> writes exactly one frame, the composite of type
  \<^verbatim>\<open>ResponseActionCollection\<close> whose sub-frames are the model, the state and the snapshot
  of \<^verbatim>\<open>all()\<close> in this order; whatever happens afterwards, this composite stays the first
  frame of the call, so every \<^verbatim>\<open>ResponseActionCollectionChange\<close> frame of the call comes
  after it.
\<close>

theorem collection_opening_first:
  assumes "reachable s"
    and "parseActionType message = Inr (controller, method)"
    and "controllers s controller = Some classType"
    and "loadTypes controller method s = Inr (types, s1)"
    and "parseArgs message (parameterSchema types) = Inr args"
    and "injector_get env classType = Inr u"
    and "getXToClassFunction env (parametersDeserialize types) args = Inr converted"
    and "jitValidate env (parametersValidate types) converted = []"
    and "invoke env classType method converted = Inr result"
    and "\<not> instEntitySubject result" and "instCollection result"
    and "\<forall>f \<in> set (out s). fid f \<noteq> mid message"
  shows "emitted s (snd (handleAction message env s)) =
           [\<lparr>fid = mid message, ftype = ResponseActionCollection,
             fbody = Composite
               [(ResponseActionCollectionModel, BodyModel (coll_model result)),
                (ResponseActionCollectionState, BodyState (coll_state result)),
                (ResponseActionCollectionSet, BodyItems (coll_all result))]\<rparr>]
    \<and> (\<exists>rest. filter (\<lambda>f. fid f = mid message) (out (run es (snd (handleAction message env s)))) =
          \<lparr>fid = mid message, ftype = ResponseActionCollection,
            fbody = Composite
              [(ResponseActionCollectionModel, BodyModel (coll_model result)),
               (ResponseActionCollectionState, BodyState (coll_state result)),
               (ResponseActionCollectionSet, BodyItems (coll_all result))]\<rparr> # rest)"
proof -
  let ?s = "s1\<lparr>invoked := invoked s1 @ [(controller, method, converted)]\<rparr>"
  let ?h = "handleResult (mid message) (controller @ ''!'' @ method) types result ?s"
  let ?s' = "snd (handleAction message env s)"
  have "\<exists>p. getProperty (resultSchema types) ''v'' = Inr p"
    using cache_ok_loadTypes(2)[OF reachable_cache_ok[OF assms(1)] assms(4)] .
  then have ok: "fst ?h = None" by (intro handleResult_ok) simp
  have h: "handleAction message env s = (None, snd ?h)"
    using assms(2-9) ok by (rule handleAction_result)
  have o: "out ?s' = out s @ [opening_frame (mid message) result]"
    using handleResult_out[of "mid message" "controller @ ''!'' @ method" types result ?s] ok
      loadTypes_fields(1)[OF assms(4)] assms(10,11)
    by (simp add: h)
  obtain rest where r: "out (run es ?s') = out ?s' @ rest"
    using run_prefix[of ?s' es] by (auto simp: prefix_def)
  have "filter (\<lambda>f. fid f = mid message) (out s) = []"
    using assms(12) by (simp add: filter_empty_conv)
  then have "filter (\<lambda>f. fid f = mid message) (out (run es ?s')) =
      opening_frame (mid message) result # filter (\<lambda>f. fid f = mid message) rest"
    by (simp add: r o opening_frame_def)
  then show ?thesis
    using emitted_append[OF o] by (auto simp: opening_frame_def)
qed

theorem collection_opening_first_witness:
  "emitted ex_init (snd (handleAction (ex_action 9 ''items'') (ex_env [] (Inr ex_collection)) ex_init))
     = [\<lparr>fid = 9, ftype = ResponseActionCollection,
         fbody = Composite
           [(ResponseActionCollectionModel, BodyModel ''model''),
            (ResponseActionCollectionState, BodyState ''state''),
            (ResponseActionCollectionSet, BodyItems [''x'', ''y''])]\<rparr>]
   \<and> (\<exists>rest. filter (\<lambda>f. fid f = 9)
         (out (run [Batch 0 [\<lparr>ev_type = ''add'', ev_items = [''z''], ev_ids = []\<rparr>] [''x'', ''y'', ''z''] ''state'']
            (snd (handleAction (ex_action 9 ''items'') (ex_env [] (Inr ex_collection)) ex_init)))) =
        \<lparr>fid = 9, ftype = ResponseActionCollection,
          fbody = Composite
            [(ResponseActionCollectionModel, BodyModel ''model''),
             (ResponseActionCollectionState, BodyState ''state''),
             (ResponseActionCollectionSet, BodyItems [''x'', ''y''])]\<rparr> # rest)"
proof -
  obtain t s1 where l: "loadTypes ''c1'' ''items'' ex_init = Inr (t, s1)"
    by (simp add: loadTypes_def ex_init_def init_def ex_class_def unwrapResult_def Let_def)
  have c: "controllers ex_init ''c1'' = Some ex_class"
    and o: "\<forall>f \<in> set (out ex_init). fid f \<noteq> mid (ex_action 9 ''items'')"
    by (simp_all add: ex_init_def init_def)
  have r: "reachable ex_init" unfolding ex_init_def by (rule reachable_init)
  have k: "\<not> instEntitySubject ex_collection" "instCollection ex_collection"
    "coll_model ex_collection = ''model''" "coll_state ex_collection = ''state''"
    "coll_all ex_collection = [''x'', ''y'']"
    by (simp_all add: ex_collection_def ex_plain_def)
  show ?thesis
    using collection_opening_first [OF r _ c l _ _ _ _ _ k(1,2) o, of "[''2'', ''3'']"
        "ex_env [] (Inr ex_collection)" "()" "[''2'', ''3'']"
        "[Batch 0 [\<lparr>ev_type = ''add'', ev_items = [''z''], ev_ids = []\<rparr>] [''x'', ''y'', ''z''] ''state'']"] k(3-5)
    by (simp add: ex_action_def ex_env_def)
qed

section \<open>The announcement of a subject\<close>





section \<open>Cache entries after their insertion\<close>

lemma types_extend_refl [simp]: "types_extend t t"
  by (simp add: types_extend_def)

lemma types_extend_trans:
  assumes "types_extend t t'" and "types_extend t' t''"
  shows "types_extend t t''"
proof -
  have 1: "t' = t\<lparr>collectionSchema := collectionSchema t'\<rparr>"
    and 2: "t'' = t'\<lparr>collectionSchema := collectionSchema t''\<rparr>"
    and 3: "collectionSchema t \<noteq> None \<longrightarrow> collectionSchema t' = collectionSchema t"
    and 4: "collectionSchema t' \<noteq> None \<longrightarrow> collectionSchema t'' = collectionSchema t'"
    using assms by (simp_all add: types_extend_def)
  have "t'' = t\<lparr>collectionSchema := collectionSchema t''\<rparr>"
    by (subst 2, subst 1) simp
  moreover have "collectionSchema t \<noteq> None \<longrightarrow> collectionSchema t'' = collectionSchema t"
    using 3 4 by auto
  ultimately show ?thesis by (simp add: types_extend_def)
qed

lemma types_extend_loadTypes:
  assumes "cachedActionsTypes s k = Some t" and "loadTypes c m s = Inr (t0, s1)"
  shows "cachedActionsTypes s1 k = Some t"
  using loadTypes_cache(2)[OF assms(2)] assms(1) by auto

lemma types_extend_step:
  assumes "cachedActionsTypes s k = Some t"
  shows "\<exists>t'. cachedActionsTypes (step e s) k = Some t' \<and> types_extend t t'"
proof (cases e)
  case (ActionMessage message env)
  show ?thesis
  proof (cases rule: handleAction_cache[of message env s])
    case same
    then show ?thesis using assms ActionMessage by simp
  next
    case (loaded c m t0 s1)
    then show ?thesis
      using types_extend_loadTypes[OF assms loaded(1)] ActionMessage by simp
  next
    case (assigned c m t0 s1 cs)
    have k1: "cachedActionsTypes s1 k = Some t"
      using types_extend_loadTypes[OF assms assigned(1)] .
    show ?thesis
    proof (cases "k = c @ ''!'' @ m")
      case True
      then have "t0 = t" using loadTypes_cache(1)[OF assigned(1)] k1 by simp
      then show ?thesis
        using assigned(2,3) True ActionMessage by (simp add: types_extend_def)
    next
      case False
      then show ?thesis using assigned(3) k1 ActionMessage by simp
    qed
  qed
next
  case (ActionTypeMessage message)
  show ?thesis
    using handleActionTypes_cache[of message s] types_extend_loadTypes[OF assms] assms
      ActionTypeMessage
    by auto
qed (use assms in simp_all)

text \<open>
  C4, amended. A cache entry is never removed, and a later reading of the same key
  differs from an earlier one in the field \<^verbatim>\<open>collectionSchema\<close> at most: every other
  field keeps its value, and \<^verbatim>\<open>collectionSchema\<close>, once present, keeps its value too (it
  is assigned once, on the first collection result of the method).
\<close>

theorem cache_entry_changes_only_collectionSchema:
  assumes "cachedActionsTypes s k = Some t"
  shows "\<exists>t'. cachedActionsTypes (run es s) k = Some t'
           \<and> t' = t\<lparr>collectionSchema := collectionSchema t'\<rparr>
           \<and> (collectionSchema t \<noteq> None \<longrightarrow> t' = t)"
proof -
  have "\<exists>t'. cachedActionsTypes (run es s) k = Some t' \<and> types_extend t t'"
    using assms
  proof (induction es arbitrary: s t)
    case Nil
    then show ?case by simp
  next
    case (Cons e es)
    obtain t1 where 1: "cachedActionsTypes (step e s) k = Some t1" "types_extend t t1"
      using types_extend_step[OF Cons.prems] by blast
    obtain t2 where 2: "cachedActionsTypes (run es (step e s)) k = Some t2" "types_extend t1 t2"
      using Cons.IH[OF 1(1)] by blast
    show ?case using 2(1) types_extend_trans[OF 1(2) 2(2)] by simp
  qed
  then obtain t' where t': "cachedActionsTypes (run es s) k = Some t'" "types_extend t t'"
    by blast
  have "collectionSchema t \<noteq> None \<longrightarrow> t' = t"
  proof
    assume "collectionSchema t \<noteq> None"
    then have "collectionSchema t' = collectionSchema t" using t'(2) by (simp add: types_extend_def)
    moreover have "t' = t\<lparr>collectionSchema := collectionSchema t'\<rparr>"
      using t'(2) by (simp add: types_extend_def)
    ultimately show "t' = t" by simp
  qed
  then show ?thesis using t' by (auto simp: types_extend_def)
qed

theorem cache_entry_changes_only_collectionSchema_witness:
  "\<exists>t t'. cachedActionsTypes ex_types_loaded ''c1!items'' = Some t
     \<and> cachedActionsTypes
         (run [ActionMessage (ex_action 9 ''items'') (ex_env [] (Inr ex_collection))] ex_types_loaded)
         ''c1!items'' = Some t'
     \<and> t' = t\<lparr>collectionSchema := collectionSchema t'\<rparr>"
proof -
  obtain t where t: "cachedActionsTypes ex_types_loaded ''c1!items'' = Some t"
    by (simp add: ex_types_loaded_def handleActionTypes_def ex_action_def loadTypes_def ex_init_def
        init_def ex_class_def unwrapResult_def Let_def getProperty_def registerProperty_def
        createClassSchema_def as_v_def)
  show ?thesis
    using cache_entry_changes_only_collectionSchema [OF t,
        of "[ActionMessage (ex_action 9 ''items'') (ex_env [] (Inr ex_collection))]"] t
    by auto
qed

text \<open>
  C4 as stated fails: after \<^verbatim>\<open>handleActionTypes\<close> has cached the types of \<open>items\<close>, the
  entry has no \<^verbatim>\<open>collectionSchema\<close>; the first call of \<open>items\<close> that returns a collection
  assigns one to the cached entry, so two readings of the key differ.
\<close>

theorem cache_entry_mutated:
  "map_option collectionSchema (cachedActionsTypes ex_types_loaded ''c1!items'') = Some None
   \<and> map_option collectionSchema
       (cachedActionsTypes
          (step (ActionMessage (ex_action 9 ''items'') (ex_env [] (Inr ex_collection))) ex_types_loaded)
          ''c1!items'')
     = Some (Some [PropertySchema ''v'' ''array'' False None
                     [PropertySchema ''v'' ''string'' True None []]])"
  by (simp add: ex_types_loaded_def handleActionTypes_def handleAction_def ex_action_def
      ex_env_def ex_collection_def ex_plain_def loadTypes_def ex_init_def init_def ex_class_def
      unwrapResult_def Let_def getProperty_def registerProperty_def createClassSchema_def as_v_def
      catchBlock_def tryBlock_def handleResult_def handleCollection_def
      ensureCollectionSchema_def rx_subscribe_eq)


section \<open>The cache key and the wrapper without generic type\<close>

lemma loadTypes_built:
  assumes "loadTypes c m s = Inr (t, s1)" and "cachedActionsTypes s (c @ ''!'' @ m) = None"
  shows "\<exists>ct u. controllers s c = Some ct \<and> m \<in> set (getActions ct)
           \<and> unwrapResult ct m (getMethod ct m) = Inr u"
  using assms
  by (auto simp: loadTypes_def Let_def split: option.splits if_splits sum.splits)

lemma cache_built_loadTypes:
  assumes "cache_built s" and l: "loadTypes c m s = Inr (t, s1)"
  shows "cache_built s1"
proof -
  have c: "controllers s1 = controllers s" using loadTypes_fields[OF l] by simp
  from loadTypes_cache(2)[OF l] show ?thesis
  proof
    assume "cachedActionsTypes s1 = cachedActionsTypes s"
    then show ?thesis using assms(1) c by (simp add: cache_built_def)
  next
    assume a: "cachedActionsTypes s (c @ ''!'' @ m) = None
        \<and> cachedActionsTypes s1 = (cachedActionsTypes s)(c @ ''!'' @ m \<mapsto> t)
        \<and> (\<exists>u. resultSchema t = registerProperty createClassSchema (as_v u))
        \<and> collectionSchema t = None"
    then obtain ct u where b: "controllers s c = Some ct" "m \<in> set (getActions ct)"
        "unwrapResult ct m (getMethod ct m) = Inr u"
      using loadTypes_built[OF l] by blast
    show ?thesis
      unfolding cache_built_def
    proof (intro allI impI)
      fix k
      assume k: "cachedActionsTypes s1 k \<noteq> None"
      show "\<exists>c ct m u. controllers s1 c = Some ct \<and> m \<in> set (getActions ct)
           \<and> k = c @ ''!'' @ m \<and> unwrapResult ct m (getMethod ct m) = Inr u"
      proof (cases "k = c @ ''!'' @ m")
        case True
        then show ?thesis using b c by auto
      next
        case False
        then have "cachedActionsTypes s k \<noteq> None" using k a by simp
        then show ?thesis using assms(1) c unfolding cache_built_def by simp
      qed
    qed
  qed
qed

lemma cache_built_same:
  assumes "cache_built s" and "controllers s' = controllers s"
    and "\<And>k. cachedActionsTypes s' k \<noteq> None \<Longrightarrow> cachedActionsTypes s k \<noteq> None"
  shows "cache_built s'"
  using assms unfolding cache_built_def by metis

lemma cache_built_step: "cache_built s \<Longrightarrow> cache_built (step e s)"
proof (cases e)
  case (ActionMessage message env)
  assume ok: "cache_built s"
  have c: "controllers (snd (handleAction message env s)) = controllers s" by simp
  show ?thesis
  proof (cases rule: handleAction_cache[of message env s])
    case same
    then show ?thesis using cache_built_same[OF ok c] ActionMessage by simp
  next
    case (loaded c1 m t s1)
    have "controllers s1 = controllers s" using loadTypes_fields[OF loaded(1)] by simp
    then show ?thesis
      using cache_built_same[OF cache_built_loadTypes[OF ok loaded(1)], of "snd (handleAction message env s)"]
        loaded(2) c ActionMessage by simp
  next
    case (assigned c1 m t s1 cs)
    have "controllers s1 = controllers s" using loadTypes_fields[OF assigned(1)] by simp
    moreover have "cachedActionsTypes s1 (c1 @ ''!'' @ m) \<noteq> None"
      using loadTypes_cache(1)[OF assigned(1)] by simp
    ultimately show ?thesis
      using cache_built_same[OF cache_built_loadTypes[OF ok assigned(1)], of "snd (handleAction message env s)"]
        assigned(3) c ActionMessage by (simp split: if_splits)
  qed
next
  case (ActionTypeMessage message)
  assume ok: "cache_built s"
  have c: "controllers (snd (handleActionTypes message s)) = controllers s" by simp
  from handleActionTypes_cache[of message s] show ?thesis
  proof
    assume "cachedActionsTypes (snd (handleActionTypes message s)) = cachedActionsTypes s"
    then show ?thesis using cache_built_same[OF ok c] ActionTypeMessage by simp
  next
    assume "\<exists>c m t s1. loadTypes c m s = Inr (t, s1)
        \<and> cachedActionsTypes (snd (handleActionTypes message s)) = cachedActionsTypes s1"
    then obtain c1 m t s1 where l: "loadTypes c1 m s = Inr (t, s1)"
      and k: "cachedActionsTypes (snd (handleActionTypes message s)) = cachedActionsTypes s1"
      by blast
    have "controllers s1 = controllers s" using loadTypes_fields[OF l] by simp
    then show ?thesis
      using cache_built_same[OF cache_built_loadTypes[OF ok l], of "snd (handleActionTypes message s)"]
        k c ActionTypeMessage by simp
  qed
next
  case (ControlMessage m sync)
  assume ok: "cache_built s"
  have k: "cachedActionsTypes (step e s) = cachedActionsTypes s" using ControlMessage by auto
  show ?thesis by (rule cache_built_same[OF ok]) (simp_all add: k)
next
  case (Notify h n)
  assume ok: "cache_built s"
  have k: "cachedActionsTypes (step e s) = cachedActionsTypes s" using Notify by auto
  show ?thesis by (rule cache_built_same[OF ok]) (simp_all add: k)
next
  case (InFlight h v)
  assume ok: "cache_built s"
  have k: "cachedActionsTypes (step e s) = cachedActionsTypes s" using InFlight by auto
  show ?thesis by (rule cache_built_same[OF ok]) (simp_all add: k)
next
  case (Batch h evs a st)
  assume ok: "cache_built s"
  have k: "cachedActionsTypes (step e s) = cachedActionsTypes s" using Batch by auto
  show ?thesis by (rule cache_built_same[OF ok]) (simp_all add: k)
qed

lemma cache_built_run: "cache_built s \<Longrightarrow> cache_built (run es s)"
  by (induction es arbitrary: s) (simp_all add: cache_built_step)

lemma cache_built_init: "cache_built (init cs)"
  by (simp add: cache_built_def init_def)

lemma invoked_cached_same:
  assumes "invoked_cached s" and "invoked s' = invoked s"
    and "\<And>k. cachedActionsTypes s k \<noteq> None \<Longrightarrow> cachedActionsTypes s' k \<noteq> None"
  shows "invoked_cached s'"
  using assms unfolding invoked_cached_def by metis

lemma cache_key_stays:
  assumes "cachedActionsTypes s k \<noteq> None"
  shows "cachedActionsTypes (step e s) k \<noteq> None"
proof -
  obtain t where "cachedActionsTypes s k = Some t" using assms by blast
  then show ?thesis using types_extend_step[of s k t e] by auto
qed

lemma invoked_cached_step: "invoked_cached s \<Longrightarrow> invoked_cached (step e s)"
proof (cases e)
  case (ActionMessage message env)
  assume ok: "invoked_cached s"
  have st: "\<And>k. cachedActionsTypes s k \<noteq> None \<Longrightarrow>
      cachedActionsTypes (snd (handleAction message env s)) k \<noteq> None"
    using cache_key_stays[of s _ "ActionMessage message env"] by simp
  show ?thesis
  proof (cases rule: handleAction_cases[of message env s])
    case escape
    then show ?thesis using invoked_cached_same[OF ok _ st] ActionMessage by simp
  next
    case (invalid c m t s1 errors)
    have "invoked s1 = invoked s" using loadTypes_fields[OF invalid(1)] by simp
    then have "invoked (snd (handleAction message env s)) = invoked s"
      using invalid(2) by simp
    then show ?thesis using invoked_cached_same[OF ok _ st] ActionMessage by simp
  next
    case (tried c m ct t s1 conv)
    have i: "invoked s1 = invoked s" using loadTypes_fields[OF tried(1)] by simp
    have n: "invoked (snd (handleAction message env s)) = invoked s @ [(c, m, conv)]"
      using tried(2) i by simp
    have "cachedActionsTypes s1 (c @ ''!'' @ m) \<noteq> None"
      using loadTypes_cache(1)[OF tried(1)] by simp
    then have k: "cachedActionsTypes (snd (handleAction message env s)) (c @ ''!'' @ m) \<noteq> None"
      using tryBlock_cache[of message env c m ct t conv s1] tried(2) by auto
    have "invoked_cached (snd (handleAction message env s))"
      unfolding invoked_cached_def
    proof (intro allI impI)
      fix c' m' a
      assume "(c', m', a) \<in> set (invoked (snd (handleAction message env s)))"
      then have "(c', m', a) \<in> set (invoked s) \<or> (c', m') = (c, m)" using n by auto
      then show "cachedActionsTypes (snd (handleAction message env s)) (c' @ ''!'' @ m') \<noteq> None"
        using ok st k unfolding invoked_cached_def by blast
    qed
    then show ?thesis using ActionMessage by simp
  qed
next
  case (ActionTypeMessage message)
  assume ok: "invoked_cached s"
  have i: "invoked (step e s) = invoked s"
    using ActionTypeMessage
    by (auto simp: handleActionTypes_def loadTypes_fields split: sum.split prod.split)
  show ?thesis by (rule invoked_cached_same[OF ok i]) (rule cache_key_stays)
next
  case (ControlMessage m sync)
  assume ok: "invoked_cached s"
  have i: "invoked (step e s) = invoked s" using ControlMessage by auto
  show ?thesis by (rule invoked_cached_same[OF ok i]) (rule cache_key_stays)
next
  case (Notify h n)
  assume ok: "invoked_cached s"
  have i: "invoked (step e s) = invoked s" using Notify by auto
  show ?thesis by (rule invoked_cached_same[OF ok i]) (rule cache_key_stays)
next
  case (InFlight h v)
  assume ok: "invoked_cached s"
  have i: "invoked (step e s) = invoked s" using InFlight by auto
  show ?thesis by (rule invoked_cached_same[OF ok i]) (rule cache_key_stays)
next
  case (Batch h evs a st)
  assume ok: "invoked_cached s"
  have i: "invoked (step e s) = invoked s" using Batch by auto
  show ?thesis by (rule invoked_cached_same[OF ok i]) (rule cache_key_stays)
qed

lemma invoked_cached_run: "invoked_cached s \<Longrightarrow> invoked_cached (run es s)"
  by (induction es arbitrary: s) (simp_all add: invoked_cached_step)

lemma invoked_cached_init: "invoked_cached (init cs)"
  by (simp add: invoked_cached_def init_def)

text \<open>
  In a state the dispatcher can reach, nothing is cached under the key of a method that
  is declared with a wrapper and no generic type, unless another controller and action
  share the key.
\<close>

lemma wrapper_without_generic_not_cached:
  assumes "cs controller = Some classType"
    and "method \<in> set (getActions classType)"
    and "propClassType (getMethod classType method) = Some c"
    and "extendsObservable c \<or> extendsCollection c \<or> extendsPromise c"
    and "templateArgs (getMethod classType method) = []"
    and "\<not> key_shared cs controller method"
  shows "cachedActionsTypes (run es (init cs)) (controller @ ''!'' @ method) = None"
proof (rule ccontr)
  assume "cachedActionsTypes (run es (init cs)) (controller @ ''!'' @ method) \<noteq> None"
  moreover have "cache_built (run es (init cs))"
    using cache_built_init by (rule cache_built_run)
  moreover have cc: "controllers (run es (init cs)) = cs" by (simp add: init_def)
  ultimately obtain c1 ct m u where b: "cs c1 = Some ct" "m \<in> set (getActions ct)"
      "controller @ ''!'' @ method = c1 @ ''!'' @ m"
      "unwrapResult ct m (getMethod ct m) = Inr u"
    unfolding cache_built_def by metis
  have "unwrapResult classType method (getMethod classType method)
      = Inl (Error (missingGenericMessage classType method (getClassName c)))"
    using assms(3-5) by (auto simp: unwrapResult_def)
  then have "(c1, m) \<noteq> (controller, method)" using b(1,4) assms(1) by auto
  then have "key_shared cs controller method"
    unfolding key_shared_def using b(1-3) by metis
  then show False using assms(6) by simp
qed

text \<open>
  So whenever no other controller and action share its key, a method declared with a
  wrapper and no generic type makes \<^verbatim>\<open>loadTypes\<close> throw the error of lines 117-124 in every
  state the dispatcher can reach; \<^verbatim>\<open>handleAction\<close> ends with that error in an unchanged
  state, and the method has never been invoked.
\<close>

lemma loadTypes_missing_generic_unshared:
  assumes "cs controller = Some classType"
    and "method \<in> set (getActions classType)"
    and "propClassType (getMethod classType method) = Some c"
    and "extendsObservable c \<or> extendsCollection c \<or> extendsPromise c"
    and "templateArgs (getMethod classType method) = []"
    and "\<not> key_shared cs controller method"
    and "parseActionType message = Inr (controller, method)"
  shows "\<exists>msg. loadTypes controller method (run es (init cs)) = Inl (Error msg)
           \<and> sublist method msg \<and> sublist (getClassName c) msg
           \<and> handleAction message env (run es (init cs)) = (Some (Error msg), run es (init cs))
           \<and> filter (\<lambda>(c', m', a). c' = controller \<and> m' = method)
                (invoked (run es (init cs))) = []"
proof -
  let ?s = "run es (init cs)"
  let ?msg = "missingGenericMessage classType method (getClassName c)"
  have n: "cachedActionsTypes ?s (controller @ ''!'' @ method) = None"
    using assms(1-6) by (rule wrapper_without_generic_not_cached)
  have cc: "controllers ?s controller = Some classType" using assms(1) by (simp add: init_def)
  have l: "loadTypes controller method ?s = Inl (Error ?msg)"
    using n cc assms(2-5) by (rule loadTypes_wrapper_without_generic)
  have h: "handleAction message env ?s = (Some (Error ?msg), ?s)"
    using n cc assms(2-5,7) by (rule handleAction_wrapper_without_generic)
  have "invoked_cached ?s" using invoked_cached_init by (rule invoked_cached_run)
  then have "\<And>a. (controller, method, a) \<notin> set (invoked ?s)"
    using n unfolding invoked_cached_def by blast
  then have i: "filter (\<lambda>(c', m', a). c' = controller \<and> m' = method) (invoked ?s) = []"
    by (auto simp: filter_empty_conv)
  show ?thesis
    using l h i sublist_method_missingGenericMessage sublist_className_missingGenericMessage
    by (intro exI[of _ ?msg]) simp
qed

text \<open>
  C8. The key of line 77 does not separate the controller id from the method name, and
  line 79 returns whatever is cached under it. With the controllers \<open>a\<close> and \<open>a!b\<close>, a
  call of the action \<open>c\<close> of \<open>a!b\<close>, declared as an \<^verbatim>\<open>Observable\<close> without generic type, ends
  with the error of lines 117-124 and no invocation when the cache is empty. Once the
  types of the action \<open>b!c\<close> of \<open>a\<close> have been requested, the same call finds their entry
  under its own key \<open>a!b!c\<close>: \<^verbatim>\<open>loadTypes\<close> returns it without an error, the method is
  invoked, and its result is announced.
\<close>

theorem loadTypes_cache_key_collision:
  "handleAction (ex_call 2 ''a!b'' ''c'') (ex_env [] (Inr ex_observable)) (init ex_colliding)
     = (Some (Error (missingGenericMessage ex_class_ab ''c'' ''Observable'')), init ex_colliding)
   \<and> map_option resultSchema
       (cachedActionsTypes (run [ActionTypeMessage (ex_call 1 ''a'' ''b!c'')] (init ex_colliding))
          (''a!b'' @ ''!'' @ ''c''))
     = Some [PropertySchema ''v'' ''number'' True None []]
   \<and> map_option (resultSchema \<circ> fst)
       (projr_option (loadTypes ''a!b'' ''c''
          (run [ActionTypeMessage (ex_call 1 ''a'' ''b!c'')] (init ex_colliding))))
     = Some [PropertySchema ''v'' ''number'' True None []]
   \<and> fst (handleAction (ex_call 2 ''a!b'' ''c'') (ex_env [] (Inr ex_observable))
            (run [ActionTypeMessage (ex_call 1 ''a'' ''b!c'')] (init ex_colliding))) = None
   \<and> invoked (snd (handleAction (ex_call 2 ''a!b'' ''c'') (ex_env [] (Inr ex_observable))
            (run [ActionTypeMessage (ex_call 1 ''a'' ''b!c'')] (init ex_colliding))))
     = [(''a!b'', ''c'', [])]
   \<and> emitted (run [ActionTypeMessage (ex_call 1 ''a'' ''b!c'')] (init ex_colliding))
       (snd (handleAction (ex_call 2 ''a!b'' ''c'') (ex_env [] (Inr ex_observable))
            (run [ActionTypeMessage (ex_call 1 ''a'' ''b!c'')] (init ex_colliding))))
     = [\<lparr>fid = 2, ftype = ResponseActionObservable,
         fbody = Single (BodyObservable observable_type)\<rparr>]"
proof -
  note defs = ex_colliding_def ex_class_a_def ex_class_ab_def ex_call_def ex_env_def
    ex_observable_def ex_plain_def init_def handleActionTypes_def handleAction_def
    loadTypes_def unwrapResult_def getProperty_def registerProperty_def createClassSchema_def
    as_v_def Let_def catchBlock_def tryBlock_def handleResult_def handleObservable_def
    reply_def emitted_def projr_option_def
  let ?s = "run [ActionTypeMessage (ex_call 1 ''a'' ''b!c'')] (init ex_colliding)"
  let ?h = "handleAction (ex_call 2 ''a!b'' ''c'') (ex_env [] (Inr ex_observable))"
  have 1: "?h (init ex_colliding)
     = (Some (Error (missingGenericMessage ex_class_ab ''c'' ''Observable'')), init ex_colliding)"
    by (simp add: defs)
  have 2: "map_option resultSchema (cachedActionsTypes ?s (''a!b'' @ ''!'' @ ''c''))
     = Some [PropertySchema ''v'' ''number'' True None []]"
    by (simp add: defs)
  have 3: "map_option (resultSchema \<circ> fst) (projr_option (loadTypes ''a!b'' ''c'' ?s))
     = Some [PropertySchema ''v'' ''number'' True None []]"
    by (simp add: defs)
  have 4: "fst (?h ?s) = None"
    by (simp add: defs)
  have 5: "invoked (snd (?h ?s)) = [(''a!b'', ''c'', [])]"
    by (simp add: defs)
  have 6: "emitted ?s (snd (?h ?s))
     = [\<lparr>fid = 2, ftype = ResponseActionObservable,
         fbody = Single (BodyObservable observable_type)\<rparr>]"
    by (simp add: defs)
  show ?thesis using 1 2 3 4 5 6 by simp
qed


section \<open>What one step does to the tables\<close>

lemma rx_notify_rx:
  "rx (rx_notify h n s) = rx s \<or> rx (rx_notify h n s) = (rx s)[h := (rx s ! h)\<lparr>closed := True\<rparr>]"
  by (cases n) (simp_all add: rx_notify_def)

lemma deliver_rx:
  "\<exists>cl. rx (deliver h ns s) = (rx s)[h := (rx s ! h)\<lparr>closed := cl\<rparr>]"
proof (cases "h < length (rx s)")
  case False
  then have "rx (deliver h ns s) = (rx s)[h := (rx s ! h)\<lparr>closed := True\<rparr>]"
    by (simp add: deliver_not_registered list_update_beyond not_less)
  then show ?thesis by blast
next
  case True
  then show ?thesis
  proof (induction ns arbitrary: s)
    case Nil
    have "rx s = (rx s)[h := (rx s ! h)\<lparr>closed := closed (rx s ! h)\<rparr>]" by simp
    then show ?case by (metis deliver_simps(1))
  next
    case (Cons n ns)
    have "h < length (rx (rx_notify h n s))" using Cons.prems by simp
    then obtain cl where cl: "rx (deliver h ns (rx_notify h n s)) =
        (rx (rx_notify h n s))[h := (rx (rx_notify h n s) ! h)\<lparr>closed := cl\<rparr>]"
      using Cons.IH by blast
    show ?case using cl rx_notify_rx[of h n s] Cons.prems by (auto intro: exI[of _ cl])
  qed
qed

lemma same_tables_refl [simp]: "same_tables s s"
  by (simp add: same_tables_def)

lemma same_tables_simps [simp]:
  "same_tables s (reply i t b s')  = same_tables s s'"
  "same_tables s (composite i t bs s') = same_tables s s'"
  "same_tables s (response_error i e s') = same_tables s s'"
  "same_tables s (run_observer c n s') = same_tables s s'"
  "same_tables s (run_batch c evs a st s') = same_tables s s'"
  "same_tables s (s'\<lparr>invoked := x\<rparr>) = same_tables s s'"
  "same_tables s (s'\<lparr>cachedActionsTypes := y\<rparr>) = same_tables s s'"
  by (simp_all add: same_tables_def)

lemma same_tables_loadTypes: "loadTypes c m s = Inr (t, s1) \<Longrightarrow> same_tables s s1"
  by (simp add: same_tables_def loadTypes_fields)

lemma same_tables_ensure: "same_tables s (snd (ensureCollectionSchema k t s))"
  by (auto simp: ensureCollectionSchema_def split: option.splits sum.splits)

lemma same_tables_catch [simp]: "same_tables s (catchBlock m x) = same_tables s (snd x)"
  by (simp add: catchBlock_def split: prod.split option.split)

lemma same_tables_trans: "same_tables s s1 \<Longrightarrow> same_tables s1 s2 \<Longrightarrow> same_tables s s2"
  by (simp add: same_tables_def)

text \<open>The cases of a step, by what it does to the subscriptions and the tables.\<close>

lemma handleResult_tables:
  obtains (quiet) "same_tables s (snd (handleResult i k t r s))"
  | (collection) "\<not> instEntitySubject r" "instCollection r"
      "unsubscribedVars (snd (handleResult i k t r s)) = unsubscribedVars s @ [False]"
      "rx (snd (handleResult i k t r s)) =
         rx s @ [\<lparr>observer = CollectionCb i (length (unsubscribedVars s)) k, closed = False\<rparr>]"
      "collections (snd (handleResult i k t r s)) =
         (collections s)(i \<mapsto> \<lparr>flagOf = length (unsubscribedVars s), eventsSub = length (rx s),
                                collectionOf = r\<rparr>)"
      "subObjs (snd (handleResult i k t r s)) = subObjs s"
      "observables (snd (handleResult i k t r s)) = observables s"
      "observableSubjects (snd (handleResult i k t r s)) = observableSubjects s"
  | (observable) "\<not> instSubject r"
      "observables (snd (handleResult i k t r s)) =
         (observables s)(i \<mapsto> \<lparr>observable = r, subscriptions = Map.empty,
                                entryNextSchema = observableNextSchema t\<rparr>)"
      "rx (snd (handleResult i k t r s)) = rx s"
      "unsubscribedVars (snd (handleResult i k t r s)) = unsubscribedVars s"
      "collections (snd (handleResult i k t r s)) = collections s"
      "subObjs (snd (handleResult i k t r s)) = subObjs s"
      "observableSubjects (snd (handleResult i k t r s)) = observableSubjects s"
  | (subject) cl where "instSubject r"
      "observables (snd (handleResult i k t r s)) =
         (observables s)(i \<mapsto> \<lparr>observable = r, subscriptions = Map.empty,
                                entryNextSchema = observableNextSchema t\<rparr>)"
      "rx (snd (handleResult i k t r s)) = rx s @ [\<lparr>observer = SubjectCb i, closed = cl\<rparr>]"
      "observableSubjects (snd (handleResult i k t r s)) = (observableSubjects s)(i \<mapsto> length (rx s))"
      "unsubscribedVars (snd (handleResult i k t r s)) = unsubscribedVars s"
      "collections (snd (handleResult i k t r s)) = collections s"
      "subObjs (snd (handleResult i k t r s)) = subObjs s"
proof -
  consider (e) "instEntitySubject r"
    | (c) "\<not> instEntitySubject r" "instCollection r"
    | (o) "\<not> instEntitySubject r" "\<not> instCollection r" "instObservable r"
    | (p) "\<not> instEntitySubject r" "\<not> instCollection r" "\<not> instObservable r"
    by blast
  then show ?thesis
  proof cases
    case e
    then show ?thesis using quiet by (simp add: handleResult_def)
  next
    case p
    then show ?thesis using quiet by (simp add: handleResult_def)
  next
    case c
    show ?thesis
    proof (cases rule: handleCollection_cases[of k t s i r])
      case (throw e s1)
      then show ?thesis using c quiet same_tables_ensure[of s k t] by (simp add: handleResult_def)
    next
      case (ok s1)
      have st: "same_tables s s1" using same_tables_ensure[of s k t] ok(1) by simp
      show ?thesis
        using c ok(2) st by (intro collection) (simp_all add: handleResult_def same_tables_def)
    qed
  next
    case o
    show ?thesis
    proof (cases "instSubject r")
      case False
      then show ?thesis
        using o by (intro observable) (simp_all add: handleResult_def handleObservable_def Let_def)
    next
      case True
      let ?s2 = "s\<lparr>observables := (observables s)(i \<mapsto>
                 \<lparr>observable = r, subscriptions = Map.empty,
                  entryNextSchema = observableNextSchema t\<rparr>),
                rx := rx s @ [\<lparr>observer = SubjectCb i, closed = False\<rparr>]\<rparr>"
      obtain cl where cl: "rx (deliver (length (rx s)) (onSubscribe r) ?s2) =
          (rx ?s2)[length (rx s) := (rx ?s2 ! length (rx s))\<lparr>closed := cl\<rparr>]"
        using deliver_rx[of "length (rx s)" "onSubscribe r" ?s2] by blast
      show ?thesis
        using o True cl
        by (intro subject[of cl])
          (simp_all add: handleResult_def handleObservable_def rx_subscribe_eq Let_def)
    qed
  qed
qed


lemma handleAction_tables:
  obtains (quiet) "same_tables s (snd (handleAction message env s))"
  | (result) k t r s0 where "same_tables s s0"
      "snd (handleAction message env s) = catchBlock message (handleResult (mid message) k t r s0)"
proof (cases rule: handleAction_cases[of message env s])
  case escape
  then show ?thesis using quiet by simp
next
  case (invalid c m t s1 errors)
  then show ?thesis using quiet same_tables_loadTypes[OF invalid(1)] by simp
next
  case (tried c m ct t s1 conv)
  note st = same_tables_loadTypes[OF tried(1)]
  show ?thesis
  proof (cases "invoke env ct m conv")
    case (Inl e)
    then show ?thesis using tried(2) st quiet by (simp add: tryBlock_def)
  next
    case (Inr r)
    have "same_tables s (s1\<lparr>invoked := invoked s1 @ [(c, m, conv)]\<rparr>)" using st by simp
    then show ?thesis
      using result[of "s1\<lparr>invoked := invoked s1 @ [(c, m, conv)]\<rparr>" "c @ ''!'' @ m" t r]
        tried(2) Inr
      by (simp add: tryBlock_def)
  qed
qed

lemma step_tables:
  obtains (quiet) "same_tables s (step e s)"
  | (close) h where "rx (step e s) = (rx s)[h := (rx s ! h)\<lparr>closed := True\<rparr>]"
      "subObjs (step e s) = subObjs s" "unsubscribedVars (step e s) = unsubscribedVars s"
      "collections (step e s) = collections s" "observables (step e s) = observables s"
      "observableSubjects (step e s) = observableSubjects s"
  | (collection) m env k r where "e = ActionMessage m env"
      "unsubscribedVars (step e s) = unsubscribedVars s @ [False]"
      "rx (step e s) =
         rx s @ [\<lparr>observer = CollectionCb (mid m) (length (unsubscribedVars s)) k, closed = False\<rparr>]"
      "collections (step e s) =
         (collections s)(mid m \<mapsto> \<lparr>flagOf = length (unsubscribedVars s),
                                    eventsSub = length (rx s), collectionOf = r\<rparr>)"
      "subObjs (step e s) = subObjs s" "observables (step e s) = observables s"
      "observableSubjects (step e s) = observableSubjects s"
  | (observable) m env ent where "e = ActionMessage m env" "subscriptions ent = Map.empty"
      "observables (step e s) = (observables s)(mid m \<mapsto> ent)"
      "rx (step e s) = rx s" "unsubscribedVars (step e s) = unsubscribedVars s"
      "collections (step e s) = collections s" "subObjs (step e s) = subObjs s"
      "observableSubjects (step e s) = observableSubjects s"
  | (subject) m env ent cl where "e = ActionMessage m env" "subscriptions ent = Map.empty"
      "observables (step e s) = (observables s)(mid m \<mapsto> ent)"
      "rx (step e s) = rx s @ [\<lparr>observer = SubjectCb (mid m), closed = cl\<rparr>]"
      "observableSubjects (step e s) = (observableSubjects s)(mid m \<mapsto> length (rx s))"
      "unsubscribedVars (step e s) = unsubscribedVars s"
      "collections (step e s) = collections s" "subObjs (step e s) = subObjs s"
  | (subscribe) m sync entry b cl where "e = ControlMessage m sync"
      "mtype m = ActionObservableSubscribe" "observables s (mid m) = Some entry"
      "parseSubscribeId m = Inr b" "subscriptions entry b = None"
      "subObjs (step e s) = subObjs s @ [\<lparr>active = True, sub = Some (length (rx s))\<rparr>]"
      "rx (step e s) =
         rx s @ [\<lparr>observer = SubscriberCb (mid m) b (length (subObjs s)), closed = cl\<rparr>]"
      "observables (step e s) =
         (observables s)(mid m \<mapsto>
            entry\<lparr>subscriptions := (subscriptions entry)(b \<mapsto> length (subObjs s))\<rparr>)"
      "unsubscribedVars (step e s) = unsubscribedVars s"
      "collections (step e s) = collections s"
      "observableSubjects (step e s) = observableSubjects s"
  | (unsubscribe) m sync entry b a where "e = ControlMessage m sync"
      "mtype m = ActionObservableUnsubscribe" "observables s (mid m) = Some entry"
      "parseSubscribeId m = Inr b" "subscriptions entry b = Some a"
      "subObjs (step e s) = (subObjs s)[a := (subObjs s ! a)\<lparr>active := False\<rparr>]"
      "rx (step e s) =
         (case (if a < length (subObjs s) then sub (subObjs s ! a) else None) of
            Some h \<Rightarrow> (rx s)[h := (rx s ! h)\<lparr>closed := True\<rparr>] | None \<Rightarrow> rx s)"
      "observables (step e s) =
         (observables s)(mid m \<mapsto> entry\<lparr>subscriptions := (subscriptions entry)(b := None)\<rparr>)"
      "unsubscribedVars (step e s) = unsubscribedVars s"
      "collections (step e s) = collections s"
      "observableSubjects (step e s) = observableSubjects s"
  | (coll_unsubscribe) m sync c where "e = ControlMessage m sync"
      "mtype m = ResponseActionCollectionUnsubscribe" "collections s (mid m) = Some c"
      "unsubscribedVars (step e s) = (unsubscribedVars s)[flagOf c := True]"
      "rx (step e s) = (rx s)[eventsSub c := (rx s ! eventsSub c)\<lparr>closed := True\<rparr>]"
      "collections (step e s) = (collections s)(mid m := None)"
      "subObjs (step e s) = subObjs s" "observables (step e s) = observables s"
      "observableSubjects (step e s) = observableSubjects s"
proof (cases e)
  case (ActionMessage m env)
  show ?thesis
  proof (cases rule: handleAction_tables[of s m env])
    case quiet
    then show ?thesis using ActionMessage that(1) by simp
  next
    case (result k t r s0)
    have st: "rx s0 = rx s" "subObjs s0 = subObjs s" "unsubscribedVars s0 = unsubscribedVars s"
      "collections s0 = collections s" "observables s0 = observables s"
      "observableSubjects s0 = observableSubjects s"
      using result(1) by (simp_all add: same_tables_def)
    have s': "step e s = catchBlock m (handleResult (mid m) k t r s0)"
      using ActionMessage result(2) by simp
    note s'' = result(2)
    show ?thesis
    proof (cases rule: handleResult_tables[of s0 "mid m" k t r])
      case quiet
      then have "same_tables s (step e s)"
        using same_tables_trans[OF result(1)] by (simp add: s')
      then show ?thesis by (rule that(1))
    next
      case collection
      then show ?thesis
        using ActionMessage st by (intro that(3)[of m env k r]) (simp_all add: s'')
    next
      case observable
      show ?thesis
        using ActionMessage st observable
        by (intro that(4)[of m env "\<lparr>observable = r, subscriptions = Map.empty,
              entryNextSchema = observableNextSchema t\<rparr>"]) (simp_all add: s'')
    next
      case (subject cl)
      show ?thesis
        using ActionMessage st subject
        by (intro that(5)[of m env "\<lparr>observable = r, subscriptions = Map.empty,
              entryNextSchema = observableNextSchema t\<rparr>" cl]) (simp_all add: s'')
    qed
  qed
next
  case (ActionTypeMessage m)
  have "same_tables s (step e s)"
    using ActionTypeMessage
    by (auto simp: handleActionTypes_def same_tables_loadTypes split: sum.split prod.split)
  then show ?thesis by (rule that(1))
next
  case (Notify h n)
  show ?thesis
  proof (cases "rx (rx_notify h n s) = rx s")
    case True
    then have "same_tables s (step e s)" using Notify by (simp add: same_tables_def)
    then show ?thesis by (rule that(1))
  next
    case False
    then have "rx (rx_notify h n s) = (rx s)[h := (rx s ! h)\<lparr>closed := True\<rparr>]"
      using rx_notify_rx[of h n s] by simp
    then show ?thesis using Notify by (intro that(2)[of h]) simp_all
  qed
next
  case (InFlight h v)
  then have "same_tables s (step e s)" by simp
  then show ?thesis by (rule that(1))
next
  case (Batch h evs a st)
  then have "same_tables s (step e s)" by simp
  then show ?thesis by (rule that(1))
next
  case (ControlMessage m sync)
  consider (sub) "mtype m = ActionObservableSubscribe"
    | (cun) "mtype m = ResponseActionCollectionUnsubscribe"
    | (un) "mtype m = ActionObservableUnsubscribe"
    | (sun) "mtype m = ActionObservableSubjectUnsubscribe"
    | (other) "mtype m \<noteq> ActionObservableSubscribe"
        "mtype m \<noteq> ResponseActionCollectionUnsubscribe"
        "mtype m \<noteq> ActionObservableUnsubscribe" "mtype m \<noteq> ActionObservableSubjectUnsubscribe"
    by blast
  then show ?thesis
  proof cases
    case other
    then have "same_tables s (step e s)"
      using ControlMessage by (simp add: handle_def split: rpc_types.split)
    then show ?thesis by (rule that(1))
  next
    case sun
    show ?thesis
    proof (cases "observableSubjects s (mid m)")
      case None
      then have "same_tables s (step e s)"
        using ControlMessage sun by (simp add: handle_def handleSubjectUnsubscribe_def)
      then show ?thesis by (rule that(1))
    next
      case (Some h)
      then show ?thesis
        using ControlMessage sun
        by (intro that(2)[of h]) (simp_all add: handle_def handleSubjectUnsubscribe_def)
    qed
  next
    case cun
    show ?thesis
    proof (cases "collections s (mid m)")
      case None
      then have "same_tables s (step e s)"
        using ControlMessage cun by (simp add: handle_def handleCollectionUnsubscribe_def)
      then show ?thesis by (rule that(1))
    next
      case (Some c)
      then show ?thesis
        using ControlMessage cun
        by (intro that(8)[of m sync c])
          (simp_all add: handle_def handleCollectionUnsubscribe_def Let_def)
    qed
  next
    case un
    have hu: "step e s = snd (handleUnsubscribe m s)"
      and hu': "snd (handle m sync s) = snd (handleUnsubscribe m s)"
      using ControlMessage un by (simp_all add: handle_def)
    show ?thesis
    proof (cases "observables s (mid m)")
      case None
      then have "same_tables s (step e s)" by (simp add: hu handleUnsubscribe_def)
      then show ?thesis by (rule that(1))
    next
      case (Some entry)
      show ?thesis
      proof (cases "parseSubscribeId m")
        case (Inl err)
        then have "same_tables s (step e s)" using Some by (simp add: hu handleUnsubscribe_def)
        then show ?thesis by (rule that(1))
      next
        case (Inr b)
        show ?thesis
        proof (cases "subscriptions entry b")
          case None
          then have "same_tables s (step e s)"
            using Some Inr by (simp add: hu handleUnsubscribe_def)
          then show ?thesis by (rule that(1))
        next
          case a: (Some a)
          show ?thesis
            using ControlMessage un Some Inr a
            by (intro that(7)[of m sync entry b a])
              (simp_all add: hu' handleUnsubscribe_def Let_def split: option.split)
        qed
      qed
    qed
  next
    case sub
    have hs: "step e s = snd (handleSubscribe m sync s)"
      and hs': "snd (handle m sync s) = snd (handleSubscribe m sync s)"
      using ControlMessage sub by (simp_all add: handle_def)
    show ?thesis
    proof (cases "observables s (mid m)")
      case None
      then have "same_tables s (step e s)" by (simp add: hs handleSubscribe_def)
      then show ?thesis by (rule that(1))
    next
      case (Some entry)
      show ?thesis
      proof (cases "parseSubscribeId m")
        case (Inl err)
        then have "same_tables s (step e s)" using Some by (simp add: hs handleSubscribe_def)
        then show ?thesis by (rule that(1))
      next
        case (Inr b)
        show ?thesis
        proof (cases "subscriptions entry b")
          case a: (Some a)
          then have "same_tables s (step e s)"
            using Some Inr by (simp add: hs handleSubscribe_def)
          then show ?thesis by (rule that(1))
        next
          case None
          let ?s2 = "s\<lparr>subObjs := subObjs s @ [\<lparr>active = True, sub = None\<rparr>],
               observables := (observables s)(mid m \<mapsto>
                 entry\<lparr>subscriptions := (subscriptions entry)(b \<mapsto> length (subObjs s))\<rparr>),
               rx := rx s @ [\<lparr>observer = SubscriberCb (mid m) b (length (subObjs s)),
                              closed = False\<rparr>]\<rparr>"
          obtain cl where cl: "rx (deliver (length (rx s)) sync ?s2) =
              (rx ?s2)[length (rx s) := (rx ?s2 ! length (rx s))\<lparr>closed := cl\<rparr>]"
            using deliver_rx[of "length (rx s)" sync ?s2] by blast
          show ?thesis
            using ControlMessage sub Some Inr None cl
            by (intro that(6)[of m sync entry b cl])
              (simp_all add: hs' handleSubscribe_def rx_subscribe_eq Let_def)
        qed
      qed
    qed
  qed
qed


section \<open>An invariant of runs with distinct call ids\<close>

lemma action_ids_append [simp]: "action_ids (es @ es') = action_ids es @ action_ids es'"
  by (induction es rule: action_ids.induct) simp_all

lemma closure_inv_mono: "closure_inv ids s h cl \<Longrightarrow> ids \<subseteq> ids' \<Longrightarrow> closure_inv ids' s h cl"
  by (auto simp: closure_inv_def split: closure.splits)

lemma closure_inv_same:
  "same_tables s s' \<Longrightarrow> closure_inv ids s' h cl = closure_inv ids s h cl"
  by (auto simp: closure_inv_def same_tables_def split: closure.splits)

lemma close_at_observer [simp]:
  "h < length xs \<Longrightarrow> observer (xs[k := (xs ! k)\<lparr>closed := c\<rparr>] ! h) = observer (xs ! h)"
  by (cases "h = k") simp_all

lemma deactivate_at [simp]:
  "a0 < length xs \<Longrightarrow>
     active (xs[a := (xs ! a)\<lparr>active := False\<rparr>] ! a0) = (a0 \<noteq> a \<and> active (xs ! a0))"
  "a0 < length xs \<Longrightarrow> sub (xs[a := (xs ! a)\<lparr>active := False\<rparr>] ! a0) = sub (xs ! a0)"
  by (cases "a0 = a"; simp)+

lemma set_flag_at [simp]: "f < length xs \<Longrightarrow> xs[k := True] ! f = (f = k \<or> xs ! f)"
  by (cases "f = k") simp_all

lemma close_at_closed [simp]:
  "h < length xs \<Longrightarrow> closed (xs ! h) \<Longrightarrow> closed (xs[k := (xs ! k)\<lparr>closed := True\<rparr>] ! h)"
  by (cases "h = k") simp_all

lemma tables_inv_step:
  assumes inv: "tables_inv ids s" and fresh: "\<And>m env. e = ActionMessage m env \<Longrightarrow> mid m \<notin> ids"
  shows "tables_inv (ids \<union> set (action_ids [e])) (step e s)"
proof -
  let ?ids = "ids \<union> set (action_ids [e])"
  have c: "\<And>c x. collections s c = Some x \<Longrightarrow> c \<in> ids"
    and ob: "\<And>c x. observables s c = Some x \<Longrightarrow> c \<in> ids"
    and cl: "\<And>h. h < length (rx s) \<Longrightarrow> closure_inv ids s h (observer (rx s ! h))"
    using inv by (auto simp: tables_inv_def)
  show ?thesis
  proof (cases rule: step_tables[of s e])
    case quiet
    have "closure_inv ?ids (step e s) h (observer (rx (step e s) ! h))"
      if "h < length (rx (step e s))" for h
      using that quiet cl[of h] closure_inv_mono[of ids s h _ ?ids]
      by (simp add: closure_inv_same[OF quiet]) (simp add: same_tables_def)
    then show ?thesis using quiet c ob by (auto simp: tables_inv_def same_tables_def)
  next
    case (close h0)
    have "closure_inv ?ids (step e s) h (observer (rx (step e s) ! h))"
      if "h < length (rx (step e s))" for h
    proof -
      have h: "h < length (rx s)" using that close(1) by simp
      have o: "observer (rx (step e s) ! h) = observer (rx s ! h)"
        using h close(1) by (cases "h = h0") simp_all
      have m: "closed (rx s ! h) \<Longrightarrow> closed (rx (step e s) ! h)"
        using h close(1) by (cases "h = h0") simp_all
      show ?thesis
        using cl[OF h] m close(2-6) unfolding o
        by (auto simp: closure_inv_def split: closure.splits)
    qed
    then show ?thesis using close c ob by (auto simp: tables_inv_def)
  next
    case (collection m env k r)
    have new: "mid m \<notin> ids" using fresh collection(1) by simp
    have "closure_inv ?ids (step e s) h (observer (rx (step e s) ! h))"
      if "h < length (rx (step e s))" for h
    proof (cases "h < length (rx s)")
      case True
      then show ?thesis
        using cl[OF True] new collection
        by (auto simp: closure_inv_def nth_append split: closure.splits)
    next
      case False
      then have "h = length (rx s)" using that collection(3) by simp
      then show ?thesis using collection by (simp add: closure_inv_def nth_append)
    qed
    then show ?thesis using collection c ob by (auto simp: tables_inv_def split: if_splits)
  next
    case (observable m env ent)
    have new: "mid m \<notin> ids" using fresh observable(1) by simp
    have "closure_inv ?ids (step e s) h (observer (rx (step e s) ! h))"
      if "h < length (rx (step e s))" for h
    proof -
      have h: "h < length (rx s)" using that observable(4) by simp
      show ?thesis
        using cl[OF h] new observable
        by (auto simp: closure_inv_def split: closure.splits)
    qed
    then show ?thesis using observable c ob by (auto simp: tables_inv_def split: if_splits)
  next
    case (subject m env ent cl')
    have new: "mid m \<notin> ids" using fresh subject(1) by simp
    have "closure_inv ?ids (step e s) h (observer (rx (step e s) ! h))"
      if "h < length (rx (step e s))" for h
    proof (cases "h < length (rx s)")
      case True
      then show ?thesis
        using cl[OF True] new subject
        by (auto simp: closure_inv_def nth_append split: closure.splits)
    next
      case False
      then have "h = length (rx s)" using that subject(4) by simp
      then show ?thesis using subject by (simp add: closure_inv_def nth_append)
    qed
    then show ?thesis using subject c ob by (auto simp: tables_inv_def split: if_splits)
  next
    case (subscribe m sync entry b cl')
    have known: "mid m \<in> ids" using ob subscribe(3) by blast
    have "closure_inv ?ids (step e s) h (observer (rx (step e s) ! h))"
      if "h < length (rx (step e s))" for h
    proof (cases "h < length (rx s)")
      case True
      then show ?thesis
        using cl[OF True] subscribe
        by (auto simp: closure_inv_def nth_append split: closure.splits)
    next
      case False
      then have "h = length (rx s)" using that subscribe(7) by simp
      then show ?thesis using subscribe known by (simp add: closure_inv_def nth_append)
    qed
    then show ?thesis using subscribe c ob known by (auto simp: tables_inv_def split: if_splits)
  next
    case (unsubscribe m sync entry b a)
    have len: "length (rx (step e s)) = length (rx s)"
      using unsubscribe(7) by (simp split: option.split)
    have "closure_inv ?ids (step e s) h (observer (rx (step e s) ! h))"
      if "h < length (rx (step e s))" for h
    proof -
      have h: "h < length (rx s)" using that len by simp
      have o: "observer (rx (step e s) ! h) = observer (rx s ! h)"
        using h unsubscribe(7) by (auto split: option.split)
      have m: "closed (rx s ! h) \<Longrightarrow> closed (rx (step e s) ! h)"
        using h unsubscribe(7) by (auto split: option.split)
      show ?thesis
      proof (cases "observer (rx s ! h)")
        case (SubscriberCb c b0 a0)
        have i: "c \<in> ids" "a0 < length (subObjs s)" "sub (subObjs s ! a0) = Some h"
          and reg: "\<not> closed (rx s ! h) \<or> active (subObjs s ! a0) \<Longrightarrow>
            \<exists>x. observables s c = Some x \<and> subscriptions x b0 = Some a0"
          using cl[OF h] SubscriberCb by (auto simp: closure_inv_def)
        have s': "sub (subObjs (step e s) ! a0) = Some h"
          using i unsubscribe(6) by simp
        have "\<exists>x. observables (step e s) c = Some x \<and> subscriptions x b0 = Some a0"
          if p: "\<not> closed (rx (step e s) ! h) \<or> active (subObjs (step e s) ! a0)"
        proof -
          have p0: "\<not> closed (rx s ! h) \<or> active (subObjs s ! a0)"
            using p m i unsubscribe(6) by auto
          then obtain x where x: "observables s c = Some x" "subscriptions x b0 = Some a0"
            using reg by blast
          show ?thesis
          proof (cases "c = mid m \<and> b0 = b")
            case True
            then have "a0 = a" using x unsubscribe(3,5) by simp
            then have "closed (rx (step e s) ! h)" "\<not> active (subObjs (step e s) ! a0)"
              using i h unsubscribe(6,7) by simp_all
            then show ?thesis using p by simp
          next
            case False
            then show ?thesis using x unsubscribe(3,8) by auto
          qed
        qed
        then show ?thesis
          using i s' unsubscribe(6) unfolding o SubscriberCb by (simp add: closure_inv_def)
      next
        case (SubjectCb c)
        then show ?thesis
          using cl[OF h] unsubscribe(11) unfolding o by (simp add: closure_inv_def)
      next
        case (CollectionCb c f k)
        then show ?thesis
          using cl[OF h] unsubscribe(9,10) unfolding o by (simp add: closure_inv_def)
      qed
    qed
    then show ?thesis using unsubscribe c ob by (auto simp: tables_inv_def split: if_splits)
  next
    case (coll_unsubscribe m sync c0)
    have "closure_inv ?ids (step e s) h (observer (rx (step e s) ! h))"
      if "h < length (rx (step e s))" for h
    proof -
      have h: "h < length (rx s)" using that coll_unsubscribe(5) by simp
      have o: "observer (rx (step e s) ! h) = observer (rx s ! h)"
        using h coll_unsubscribe(5) by (cases "h = eventsSub c0") simp_all
      have m: "closed (rx s ! h) \<Longrightarrow> closed (rx (step e s) ! h)"
        using h coll_unsubscribe(5) by (cases "h = eventsSub c0") simp_all
      show ?thesis
        using cl[OF h] m coll_unsubscribe(3,4,6-9) unfolding o
        by (auto simp: closure_inv_def split: closure.splits if_splits)
    qed
    then show ?thesis using coll_unsubscribe c ob by (auto simp: tables_inv_def split: if_splits)
  qed
qed

lemma tables_inv_run:
  assumes "distinct (action_ids es)"
  shows "tables_inv (set (action_ids es)) (run es (init cs))"
  using assms
proof (induction es rule: rev_induct)
  case Nil
  then show ?case by (simp add: tables_inv_def init_def)
next
  case (snoc e es)
  have d: "distinct (action_ids es)" using snoc.prems by simp
  have f: "mid m \<notin> set (action_ids es)" if "e = ActionMessage m env" for m env
    using snoc.prems that by simp
  have "tables_inv (set (action_ids es) \<union> set (action_ids [e])) (step e (run es (init cs)))"
    using snoc.IH[OF d] f by (rule tables_inv_step)
  then show ?case by simp
qed


section \<open>Where the frames of a step come from\<close>

lemma emitted_trans:
  assumes "prefix (out s) (out s1)" and "prefix (out s1) (out s2)"
  shows "emitted s s2 = emitted s s1 @ emitted s1 s2"
proof -
  obtain xs where xs: "out s1 = out s @ xs" using assms(1) by (auto simp: prefix_def)
  obtain ys where ys: "out s2 = out s1 @ ys" using assms(2) by (auto simp: prefix_def)
  show ?thesis by (simp add: emitted_def xs ys)
qed

lemma emitted_step_run:
  "emitted s (run (e # es) s) = emitted s (step e s) @ emitted (step e s) (run es (step e s))"
  using emitted_trans[OF step_prefix[of s e] run_prefix[of "step e s" es]] by simp

lemma observer_frame_fid [simp]: "fid (observer_frame c b n) = c"
  by (cases n) simp_all

lemma handleAction_frames:
  assumes "f \<in> set (emitted s (snd (handleAction m env s)))"
  shows "fid f = mid m
    \<and> (ftype f \<in> {RpcTypes_Error, ResponseEntity, ResponseActionCollection,
                   ResponseActionObservable, ResponseActionSimple}
       \<or> (\<exists>n. f = observer_frame (mid m) (mid m) n))"
proof (cases rule: handleAction_cases[of m env s])
  case escape
  then show ?thesis using assms by (simp add: emitted_def)
next
  case (invalid c me t s1 errors)
  then show ?thesis using assms loadTypes_fields(1)[OF invalid(1)] by (simp add: emitted_def)
next
  case (tried c me ct t s1 conv)
  let ?s0 = "s1\<lparr>invoked := invoked s1 @ [(c, me, conv)]\<rparr>"
  note o1 = loadTypes_fields(1)[OF tried(1)]
  show ?thesis
  proof (cases "invoke env ct me conv")
    case (Inl e)
    then show ?thesis using assms tried(2) o1 by (simp add: tryBlock_def catchBlock_def emitted_def)
  next
    case (Inr r)
    let ?h = "handleResult (mid m) (c @ ''!'' @ me) t r ?s0"
    have t: "tryBlock m env c me ct t conv s1 = ?h" using Inr by (simp add: tryBlock_def)
    define fs where "fs =
     (if instEntitySubject r then
        [\<lparr>fid = mid m, ftype = ResponseEntity, fbody = Single (BodyV (result_v r))\<rparr>]
      else if instCollection r then (if fst ?h = None then [opening_frame (mid m) r] else [])
      else if instObservable r then
        (if instSubject r then map (observer_frame (mid m) (mid m)) (delivered (onSubscribe r))
         else []) @ [announcement (mid m) (observable_kind r)]
      else [\<lparr>fid = mid m, ftype = ResponseActionSimple, fbody = Single (BodyV (result_v r))\<rparr>])"
    have fs: "out (snd ?h) = out s @ fs"
      using handleResult_out[of "mid m" "c @ ''!'' @ me" t r ?s0] o1 by (simp add: fs_def)
    have ok: "\<forall>g \<in> set fs. fid g = mid m
        \<and> (ftype g \<in> {RpcTypes_Error, ResponseEntity, ResponseActionCollection,
                       ResponseActionObservable, ResponseActionSimple}
           \<or> (\<exists>n. g = observer_frame (mid m) (mid m) n))"
      by (auto simp: fs_def opening_frame_def announcement_def)
    have "out (snd (handleAction m env s)) = out s @ fs
        \<or> (\<exists>e. out (snd (handleAction m env s)) = out s @ fs @ [error_frame (mid m) e])"
      using tried(2) t fs by (auto simp: catchBlock_def error_frame_def split: prod.split option.split)
    then have "f \<in> set fs \<or> (\<exists>e. f = error_frame (mid m) e)"
      using assms by (auto simp: emitted_def)
    then show ?thesis using ok by (auto simp: error_frame_def)
  qed
qed

lemma handle_frames:
  assumes "f \<in> set (emitted s (snd (handle m sync s)))"
  shows "fid f = mid m
    \<and> (ftype f = RpcTypes_Error
       \<or> (mtype m = ActionObservableSubscribe
          \<and> (\<exists>b n. parseSubscribeId m = Inr b \<and> f = observer_frame (mid m) b n)))"
proof (cases "mtype m = ActionObservableSubscribe")
  case False
  then show ?thesis
    using assms
    by (auto simp: handle_def handleUnsubscribe_def handleCollectionUnsubscribe_def
        handleSubjectUnsubscribe_def emitted_def Let_def
        split: rpc_types.splits option.splits sum.splits)
next
  case True
  then have h: "handle m sync s = handleSubscribe m sync s" by (simp add: handle_def)
  show ?thesis
  proof (cases "\<exists>entry b. observables s (mid m) = Some entry \<and> parseSubscribeId m = Inr b
      \<and> subscriptions entry b = None")
    case False
    then show ?thesis
      using assms
      by (auto simp: h handleSubscribe_def emitted_def split: option.splits sum.splits)
  next
    case ex: True
    then obtain entry b where e: "observables s (mid m) = Some entry"
      "parseSubscribeId m = Inr b" "subscriptions entry b = None" by blast
    show ?thesis
      using assms handleSubscribe_ok(2)[OF e, of sync] True e(2)
      by (auto simp: h emitted_def)
  qed
qed

lemma rx_notify_frames:
  assumes "f \<in> set (emitted s (rx_notify h n s))"
  shows "h < length (rx s) \<and> \<not> closed (rx s ! h)
    \<and> ((\<exists>c b a. observer (rx s ! h) = SubscriberCb c b a \<and> f = observer_frame c b n)
       \<or> (\<exists>c. observer (rx s ! h) = SubjectCb c \<and> f = observer_frame c c n))"
proof (cases "h < length (rx s) \<and> \<not> closed (rx s ! h)")
  case False
  then show ?thesis using assms by (auto simp: rx_notify_def emitted_def)
next
  case True
  then show ?thesis
    using assms
    by (cases "observer (rx s ! h)"; cases n)
      (auto simp: rx_notify_def emitted_def split: if_splits)
qed

lemma inflight_frames:
  assumes "f \<in> set (emitted s (step (InFlight h v) s))"
  shows "h < length (rx s)
    \<and> ((\<exists>c b a. observer (rx s ! h) = SubscriberCb c b a \<and> a < length (subObjs s)
           \<and> active (subObjs s ! a) \<and> f = observer_frame c b (Next v))
       \<or> (\<exists>c. observer (rx s ! h) = SubjectCb c \<and> f = observer_frame c c (Next v)))"
proof (cases "h < length (rx s)")
  case False
  then show ?thesis using assms by (simp add: emitted_def)
next
  case True
  then show ?thesis
    using assms by (cases "observer (rx s ! h)") (auto simp: emitted_def split: if_splits)
qed

lemma batch_frames:
  assumes "f \<in> set (emitted s (step (Batch h evs al st) s))"
  shows "h < length (rx s)
    \<and> (\<exists>fl k. observer (rx s ! h) = CollectionCb (fid f) fl k
          \<and> fl < length (unsubscribedVars s) \<and> \<not> unsubscribedVars s ! fl)
    \<and> ftype f = ResponseActionCollectionChange"
proof (cases "h < length (rx s)")
  case False
  then show ?thesis using assms by (simp add: emitted_def)
next
  case True
  then show ?thesis
    using assms by (cases "observer (rx s ! h)") (auto simp: emitted_def split: if_splits)
qed

lemma handleActionTypes_frames:
  assumes "f \<in> set (emitted s (snd (handleActionTypes m s)))"
  shows "ftype f = ResponseActionType"
  using assms
  by (auto simp: handleActionTypes_def emitted_def loadTypes_fields split: sum.splits prod.splits)

lemma observer_frame_type [simp]:
  "ftype (observer_frame c b n) \<noteq> ResponseActionCollectionChange"
  by (cases n) simp_all

lemma step_change_frame:
  assumes "f \<in> set (emitted s (step e s))" and "ftype f = ResponseActionCollectionChange"
  shows "\<exists>h evs al st fl k. e = Batch h evs al st \<and> h < length (rx s)
           \<and> observer (rx s ! h) = CollectionCb (fid f) fl k
           \<and> fl < length (unsubscribedVars s) \<and> \<not> unsubscribedVars s ! fl"
proof (cases e)
  case (ActionMessage m env)
  then show ?thesis using handleAction_frames[of f s m env] assms by auto
next
  case (ActionTypeMessage m)
  then show ?thesis using handleActionTypes_frames[of f s m] assms by auto
next
  case (ControlMessage m sync)
  then show ?thesis using handle_frames[of f s m sync] assms by auto
next
  case (Notify h n)
  then show ?thesis using rx_notify_frames[of f s h n] assms by auto
next
  case (InFlight h v)
  then show ?thesis using inflight_frames[of f s h v] assms by auto
next
  case (Batch h evs al st)
  then show ?thesis using batch_frames[of f s h evs al st] assms by auto
qed


section \<open>No change frame after the unsubscribe of a collection\<close>

lemma dropped_step:
  assumes d: "dropped cid s" and other: "\<And>m env. e = ActionMessage m env \<Longrightarrow> mid m \<noteq> cid"
  shows "dropped cid (step e s)"
    and "filter (is_change_for cid) (emitted s (step e s)) = []"
proof -
  have none: "collections s cid = None"
    and fl: "\<And>h f k. h < length (rx s) \<Longrightarrow> observer (rx s ! h) = CollectionCb cid f k \<Longrightarrow>
      f < length (unsubscribedVars s) \<and> unsubscribedVars s ! f"
    using d by (auto simp: dropped_def)
  show "filter (is_change_for cid) (emitted s (step e s)) = []"
  proof (rule ccontr)
    assume "filter (is_change_for cid) (emitted s (step e s)) \<noteq> []"
    then obtain f where f: "f \<in> set (emitted s (step e s))" "fid f = cid"
      "ftype f = ResponseActionCollectionChange"
      by (auto simp: filter_empty_conv is_change_for_def)
    then obtain h fl' k where "h < length (rx s)" "observer (rx s ! h) = CollectionCb cid fl' k"
      "\<not> unsubscribedVars s ! fl'"
      using step_change_frame[OF f(1,3)] by auto
    then show False using fl by blast
  qed
  show "dropped cid (step e s)"
  proof (cases rule: step_tables[of s e])
    case quiet
    then show ?thesis using d by (simp add: dropped_def same_tables_def)
  next
    case (close h0)
    then show ?thesis using none fl by (auto simp: dropped_def)
  next
    case (collection m env k r)
    then have "mid m \<noteq> cid" using other by simp
    then show ?thesis
      using collection none fl by (auto simp: dropped_def nth_append split: if_splits)
  next
    case (observable m env ent)
    then show ?thesis using none fl by (auto simp: dropped_def)
  next
    case (subject m env ent cl)
    then show ?thesis using none fl by (auto simp: dropped_def nth_append split: if_splits)
  next
    case (subscribe m sync entry b cl)
    then show ?thesis using none fl by (auto simp: dropped_def nth_append split: if_splits)
  next
    case (unsubscribe m sync entry b a)
    have "length (rx (step e s)) = length (rx s)"
      and "\<And>h. h < length (rx s) \<Longrightarrow> observer (rx (step e s) ! h) = observer (rx s ! h)"
      using unsubscribe(7) by (auto split: option.split)
    then show ?thesis using unsubscribe(9,10) none fl by (auto simp: dropped_def)
  next
    case (coll_unsubscribe m sync c0)
    then show ?thesis using none fl by (auto simp: dropped_def)
  qed
qed

lemma dropped_run:
  assumes "dropped cid s" and "cid \<notin> set (action_ids es)"
  shows "filter (is_change_for cid) (emitted s (run es s)) = []"
  using assms
proof (induction es arbitrary: s)
  case Nil
  then show ?case by simp
next
  case (Cons e es)
  have other: "mid m \<noteq> cid" if "e = ActionMessage m env" for m env
    using Cons.prems(2) that by auto
  have rest: "cid \<notin> set (action_ids es)" using Cons.prems(2) by (cases e) auto
  have st: "dropped cid (step e s)" "filter (is_change_for cid) (emitted s (step e s)) = []"
    using dropped_step[of cid s e] Cons.prems(1) other by blast+
  show ?case
    using st(2) Cons.IH[OF st(1) rest] emitted_step_run[of s e es] by simp
qed

lemma dropped_after_unsubscribe:
  assumes inv: "tables_inv ids s" and c: "collections s (mid u) = Some entry"
    and t: "mtype u = ResponseActionCollectionUnsubscribe"
  shows "dropped (mid u) (snd (handle u sync s))"
    and "emitted s (snd (handle u sync s)) = []"
proof -
  let ?s' = "snd (handle u sync s)"
  have v: "unsubscribedVars ?s' = (unsubscribedVars s)[flagOf entry := True]"
    and r: "rx ?s' = (rx s)[eventsSub entry := (rx s ! eventsSub entry)\<lparr>closed := True\<rparr>]"
    and co: "collections ?s' = (collections s)(mid u := None)"
    and o: "out ?s' = out s"
    using c t by (simp_all add: handle_def handleCollectionUnsubscribe_def Let_def)
  show "emitted s ?s' = []" by (simp add: emitted_def o)
  have "f < length (unsubscribedVars ?s') \<and> unsubscribedVars ?s' ! f"
    if h: "h < length (rx ?s')" and cb: "observer (rx ?s' ! h) = CollectionCb (mid u) f k" for h f k
  proof -
    have h': "h < length (rx s)" using h r by simp
    then have "observer (rx s ! h) = CollectionCb (mid u) f k" using cb r by simp
    then have i: "f < length (unsubscribedVars s)"
      "\<not> unsubscribedVars s ! f \<longrightarrow> (\<exists>e. collections s (mid u) = Some e \<and> flagOf e = f)"
      using inv h' by (auto simp: tables_inv_def closure_inv_def)
    then show ?thesis using c v by auto
  qed
  then show "dropped (mid u) ?s'" using co by (simp add: dropped_def)
qed

text \<open>
  C5. In a run in which every call has its own id: once a
  \<^verbatim>\<open>ResponseActionCollectionUnsubscribe\<close> message has found the collection entry of the
  call \<open>cid\<close> and run its \<^verbatim>\<open>unsubscribe\<close>, no \<^verbatim>\<open>ResponseActionCollectionChange\<close> frame is
  written for \<open>cid\<close> any more, by the unsubscribe or by anything after it, whether the
  change feed delivers further batches or a batch was pending (the handler tests the flag
  before it builds a frame).
\<close>

theorem no_change_after_collection_unsubscribe:
  assumes "distinct (action_ids (es1 @ es2))"
    and "collections (run es1 (init cs)) cid = Some entry"
    and "mid u = cid" and "mtype u = ResponseActionCollectionUnsubscribe"
  shows "filter (is_change_for cid)
           (emitted (run es1 (init cs)) (run (ControlMessage u sync # es2) (run es1 (init cs)))) = []
    \<and> collections (run [ControlMessage u sync] (run es1 (init cs))) cid = None"
proof -
  let ?s = "run es1 (init cs)"
  let ?s' = "snd (handle u sync ?s)"
  have inv: "tables_inv (set (action_ids es1)) ?s"
    using assms(1) by (intro tables_inv_run) simp
  then have "cid \<in> set (action_ids es1)" using assms(2) by (auto simp: tables_inv_def)
  then have later: "cid \<notin> set (action_ids es2)" using assms(1) by auto
  have c: "collections ?s (mid u) = Some entry" using assms(2,3) by simp
  note un = dropped_after_unsubscribe[OF inv c assms(4), of sync]
  have "filter (is_change_for cid) (emitted ?s' (run es2 ?s')) = []"
    using un(1) later assms(3) by (intro dropped_run) simp_all
  then have "filter (is_change_for cid) (emitted ?s (run (ControlMessage u sync # es2) ?s)) = []"
    using un(2) emitted_step_run[of ?s "ControlMessage u sync" es2] by simp
  moreover have "collections ?s' cid = None" using un(1) assms(3) by (simp add: dropped_def)
  ultimately show ?thesis by simp
qed

theorem no_change_after_collection_unsubscribe_witness:
  "filter (is_change_for 9)
     (emitted (run [ex_collection_call] (init [''c1'' \<mapsto> ex_class]))
        (run (ControlMessage (ex_control 9 ResponseActionCollectionUnsubscribe 0) []
               # [Batch 0 [ex_set] [''x'', ''y''] ''state''])
           (run [ex_collection_call] (init [''c1'' \<mapsto> ex_class])))) = []
   \<and> filter (is_change_for 9)
       (emitted (run [ex_collection_call] (init [''c1'' \<mapsto> ex_class]))
          (run [Batch 0 [ex_add] [''x'', ''y'', ''z''] ''state'']
             (run [ex_collection_call] (init [''c1'' \<mapsto> ex_class]))))
     = [\<lparr>fid = 9, ftype = ResponseActionCollectionChange,
         fbody = Composite [(ResponseActionCollectionAdd, BodyItems [''z''])]\<rparr>]"
proof -
  let ?s = "run [ex_collection_call] (init [''c1'' \<mapsto> ex_class])"
  have c: "collections ?s 9 = Some \<lparr>flagOf = 0, eventsSub = 0, collectionOf = ex_collection\<rparr>"
    and r: "rx ?s = [\<lparr>observer = CollectionCb 9 0 ''c1!items'', closed = False\<rparr>]"
    and v: "unsubscribedVars ?s = [False]"
    by (simp_all add: ex_collection_call_def ex_action_def ex_env_def ex_collection_def ex_plain_def
        init_def ex_class_def handleAction_def loadTypes_def unwrapResult_def Let_def
        catchBlock_def tryBlock_def handleResult_def handleCollection_def
        ensureCollectionSchema_def getProperty_def registerProperty_def createClassSchema_def
        as_v_def rx_subscribe_eq)
  have d: "distinct (action_ids ([ex_collection_call] @ [Batch 0 [ex_set] [''x'', ''y''] ''state'']))"
    by (simp add: ex_collection_call_def)
  have 1: "filter (is_change_for 9)
     (emitted ?s (run (ControlMessage (ex_control 9 ResponseActionCollectionUnsubscribe 0) []
               # [Batch 0 [ex_set] [''x'', ''y''] ''state'']) ?s)) = []"
    using no_change_after_collection_unsubscribe [OF d c, of
        "ex_control 9 ResponseActionCollectionUnsubscribe 0" "[]"]
    by (simp add: ex_control_def)
  have 2: "filter (is_change_for 9)
       (emitted ?s (run [Batch 0 [ex_add] [''x'', ''y'', ''z''] ''state''] ?s))
     = [\<lparr>fid = 9, ftype = ResponseActionCollectionChange,
         fbody = Composite [(ResponseActionCollectionAdd, BodyItems [''z''])]\<rparr>]"
    using r v by (simp add: emitted_def is_change_for_def event_frames_def ex_add_def)
  show ?thesis using 1 2 by simp
qed


section \<open>No frame of a subscription after its unsubscribe\<close>

lemma carries_observer_frame [simp]:
  "carries c b (observer_frame c' b' n) = (c = c' \<and> b = b')"
  by (cases n) (auto simp: carries_def)

lemma carries_type:
  "carries c b f \<Longrightarrow> ftype f \<in> {ResponseActionObservableNext, ResponseActionObservableError,
      ResponseActionObservableComplete}"
  by (auto simp: carries_def split: contents.splits payload.splits option.splits)

lemma silenced_step:
  assumes k: "silenced cid b s" and ns: "\<not> subscribes cid b e"
    and other: "\<And>m env. e = ActionMessage m env \<Longrightarrow> mid m \<noteq> cid"
  shows "silenced cid b (step e s)"
    and "filter (carries cid b) (emitted s (step e s)) = []"
proof -
  have sub: "\<And>h a. h < length (rx s) \<Longrightarrow> observer (rx s ! h) = SubscriberCb cid b a \<Longrightarrow>
      closed (rx s ! h) \<and> a < length (subObjs s) \<and> \<not> active (subObjs s ! a)"
    and subj: "\<And>h. h < length (rx s) \<Longrightarrow> b = cid \<Longrightarrow> observer (rx s ! h) \<noteq> SubjectCb cid"
    using k by (auto simp: silenced_def)
  show "filter (carries cid b) (emitted s (step e s)) = []"
  proof (rule ccontr)
    assume "filter (carries cid b) (emitted s (step e s)) \<noteq> []"
    then obtain f where f: "f \<in> set (emitted s (step e s))" "carries cid b f"
      by (auto simp: filter_empty_conv)
    note ty = carries_type[OF f(2)]
    have fi: "fid f = cid" using f(2) by (simp add: carries_def)
    show False
    proof (cases e)
      case (ActionMessage m env)
      then show ?thesis using handleAction_frames[of f s m env] f(1) fi other by auto
    next
      case (ActionTypeMessage m)
      then show ?thesis using handleActionTypes_frames[of f s m] f(1) ty by auto
    next
      case (ControlMessage m sync)
      then show ?thesis
        using handle_frames[of f s m sync] f ty ns by (auto simp: subscribes_def)
    next
      case (Notify h n)
      then show ?thesis using rx_notify_frames[of f s h n] f sub subj by auto
    next
      case (InFlight h v)
      then show ?thesis using inflight_frames[of f s h v] f sub subj by (auto simp: carries_def)
    next
      case (Batch h evs al st)
      then show ?thesis using batch_frames[of f s h evs al st] f(1) ty by auto
    qed
  qed
  show "silenced cid b (step e s)"
  proof (cases rule: step_tables[of s e])
    case quiet
    then show ?thesis using k by (simp add: silenced_def same_tables_def)
  next
    case (close h0)
    then show ?thesis using k by (auto simp: silenced_def)
  next
    case (collection m env k' r)
    then show ?thesis using k by (auto simp: silenced_def nth_append less_Suc_eq)
  next
    case (observable m env ent)
    then show ?thesis using k by (auto simp: silenced_def)
  next
    case (subject m env ent cl)
    then have "mid m \<noteq> cid" using other by simp
    then show ?thesis using subject k by (auto simp: silenced_def nth_append less_Suc_eq)
  next
    case (subscribe m sync entry b' cl)
    then have "mid m \<noteq> cid \<or> b' \<noteq> b" using ns by (auto simp: subscribes_def)
    then show ?thesis using subscribe k by (auto simp: silenced_def nth_append less_Suc_eq)
  next
    case (unsubscribe m sync entry b' a)
    have l: "length (rx (step e s)) = length (rx s)"
      and o: "\<And>h. h < length (rx s) \<Longrightarrow> observer (rx (step e s) ! h) = observer (rx s ! h)"
      and c: "\<And>h. h < length (rx s) \<Longrightarrow> closed (rx s ! h) \<Longrightarrow> closed (rx (step e s) ! h)"
      using unsubscribe(7) by (auto split: option.split)
    show ?thesis using unsubscribe(6) l o c k by (auto simp: silenced_def)
  next
    case (coll_unsubscribe m sync c0)
    then show ?thesis using k by (auto simp: silenced_def)
  qed
qed

lemma silenced_run:
  assumes "silenced cid b s" and "list_all (\<lambda>e. \<not> subscribes cid b e) es"
    and "cid \<notin> set (action_ids es)"
  shows "filter (carries cid b) (emitted s (run es s)) = []"
  using assms
proof (induction es arbitrary: s)
  case Nil
  then show ?case by simp
next
  case (Cons e es)
  have other: "mid m \<noteq> cid" if "e = ActionMessage m env" for m env
    using Cons.prems(3) that by auto
  have rest: "cid \<notin> set (action_ids es)" using Cons.prems(3) by (cases e) auto
  have ns: "\<not> subscribes cid b e" "list_all (\<lambda>e. \<not> subscribes cid b e) es"
    using Cons.prems(2) by simp_all
  have st: "silenced cid b (step e s)" "filter (carries cid b) (emitted s (step e s)) = []"
    using silenced_step[of cid b s e] Cons.prems(1) ns(1) other by blast+
  show ?case
    using st(2) Cons.IH[OF st(1) ns(2) rest] emitted_step_run[of s e es] by simp
qed

lemma silenced_after_unsubscribe:
  assumes inv: "tables_inv ids s" and ob: "observables s (mid u) = Some entry"
    and p: "parseSubscribeId u = Inr b" and r: "subscriptions entry b = Some a"
    and t: "mtype u = ActionObservableUnsubscribe"
    and al: "b = mid u \<longrightarrow> observableSubjects s (mid u) = None"
  shows "silenced (mid u) b (snd (handle u sync s))"
    and "emitted s (snd (handle u sync s)) = []"
    and "observables (snd (handle u sync s)) (mid u) =
           Some (entry\<lparr>subscriptions := (subscriptions entry)(b := None)\<rparr>)"
proof -
  let ?s' = "snd (handle u sync s)"
  have hu: "handle u sync s = handleUnsubscribe u s" using t by (simp add: handle_def)
  have so: "subObjs ?s' = (subObjs s)[a := (subObjs s ! a)\<lparr>active := False\<rparr>]"
    and rx': "rx ?s' =
         (case (if a < length (subObjs s) then sub (subObjs s ! a) else None) of
            Some h \<Rightarrow> (rx s)[h := (rx s ! h)\<lparr>closed := True\<rparr>] | None \<Rightarrow> rx s)"
    and o: "out ?s' = out s"
    using ob p r by (simp_all add: hu handleUnsubscribe_def Let_def split: option.split)
  show "emitted s ?s' = []" by (simp add: emitted_def o)
  show "observables ?s' (mid u) =
           Some (entry\<lparr>subscriptions := (subscriptions entry)(b := None)\<rparr>)"
    using handleUnsubscribe_ok(3)[OF ob p r] by (simp add: hu)
  have l: "length (rx ?s') = length (rx s)"
    and obs: "\<And>h. h < length (rx s) \<Longrightarrow> observer (rx ?s' ! h) = observer (rx s ! h)"
    and cm: "\<And>h. h < length (rx s) \<Longrightarrow> closed (rx s ! h) \<Longrightarrow> closed (rx ?s' ! h)"
    using rx' by (auto split: option.split)
  have 1: "closed (rx ?s' ! h) \<and> a' < length (subObjs ?s') \<and> \<not> active (subObjs ?s' ! a')"
    if h: "h < length (rx ?s')" and cb: "observer (rx ?s' ! h) = SubscriberCb (mid u) b a'" for h a'
  proof -
    have h': "h < length (rx s)" using h l by simp
    then have cb': "observer (rx s ! h) = SubscriberCb (mid u) b a'" using cb obs by simp
    have i: "a' < length (subObjs s)" "sub (subObjs s ! a') = Some h"
      and reg: "\<not> closed (rx s ! h) \<or> active (subObjs s ! a') \<Longrightarrow>
        \<exists>x. observables s (mid u) = Some x \<and> subscriptions x b = Some a'"
      using inv h' cb' by (auto simp: tables_inv_def closure_inv_def)
    show ?thesis
    proof (cases "\<not> closed (rx s ! h) \<or> active (subObjs s ! a')")
      case False
      then show ?thesis using i cm[OF h'] so by simp
    next
      case True
      then have "a' = a" using reg ob r by auto
      then show ?thesis using i h' so rx' by simp
    qed
  qed
  have 2: "observer (rx ?s' ! h) \<noteq> SubjectCb (mid u)" if h: "h < length (rx ?s')" and "b = mid u" for h
  proof
    assume "observer (rx ?s' ! h) = SubjectCb (mid u)"
    then have "observer (rx s ! h) = SubjectCb (mid u)" using h l obs by simp
    then have "observableSubjects s (mid u) \<noteq> None"
      using inv h l by (auto simp: tables_inv_def closure_inv_def)
    then show False using al that(2) by simp
  qed
  show "silenced (mid u) b ?s'" using 1 2 by (auto simp: silenced_def)
qed

text \<open>
  C6. In a run in which every call has its own id: once an \<^verbatim>\<open>ActionObservableUnsubscribe\<close>
  message has found subscription \<open>subID\<close> of the call \<open>cid\<close>, it removes the entry, and all
  client subscriptions registered under \<open>subID\<close> are cancelled with an inactive \<^verbatim>\<open>sub\<close>
  object; from then on, as long as \<open>subID\<close> is not subscribed again on the call, no
  \<^verbatim>\<open>ResponseActionObservableNext\<close>, \<^verbatim>\<open>ResponseActionObservableError\<close> or
  \<^verbatim>\<open>ResponseActionObservableComplete\<close> frame carrying \<open>subID\<close> is written for \<open>cid\<close>, whatever
  the source sends, a value that reaches the \<^verbatim>\<open>next\<close> callback after the cancellation
  included. (When \<open>subID\<close> is the call id itself, the call must have no subscription of
  the server to a subject: that one tags its frames with the call id.)
\<close>

theorem no_frame_after_observable_unsubscribe:
  assumes "distinct (action_ids (es1 @ es2))"
    and "observables (run es1 (init cs)) cid = Some entry"
    and "subscriptions entry subID = Some a"
    and "mid u = cid" and "mtype u = ActionObservableUnsubscribe"
    and "parseSubscribeId u = Inr subID"
    and "list_all (\<lambda>e. \<not> subscribes cid subID e) es2"
    and "subID = cid \<longrightarrow> observableSubjects (run es1 (init cs)) cid = None"
  shows "filter (carries cid subID)
           (emitted (run es1 (init cs)) (run (ControlMessage u sync # es2) (run es1 (init cs)))) = []
    \<and> observables (run [ControlMessage u sync] (run es1 (init cs))) cid =
        Some (entry\<lparr>subscriptions := (subscriptions entry)(subID := None)\<rparr>)
    \<and> silenced cid subID (run [ControlMessage u sync] (run es1 (init cs)))"
proof -
  let ?s = "run es1 (init cs)"
  let ?s' = "snd (handle u sync ?s)"
  have inv: "tables_inv (set (action_ids es1)) ?s"
    using assms(1) by (intro tables_inv_run) simp
  then have "cid \<in> set (action_ids es1)" using assms(2) by (auto simp: tables_inv_def)
  then have later: "cid \<notin> set (action_ids es2)" using assms(1) by auto
  have ob: "observables ?s (mid u) = Some entry" using assms(2,4) by simp
  have al: "subID = mid u \<longrightarrow> observableSubjects ?s (mid u) = None" using assms(4,8) by simp
  note un = silenced_after_unsubscribe[OF inv ob assms(6) assms(3) assms(5) al, of sync]
  have "filter (carries cid subID) (emitted ?s' (run es2 ?s')) = []"
    using un(1) assms(4,7) later by (intro silenced_run) simp_all
  then have "filter (carries cid subID) (emitted ?s (run (ControlMessage u sync # es2) ?s)) = []"
    using un(2) emitted_step_run[of ?s "ControlMessage u sync" es2] by simp
  then show ?thesis using un(1,3) assms(4) by simp
qed

theorem no_frame_after_observable_unsubscribe_witness:
  "filter (carries 4 4)
     (emitted (run ex_stream_run (init [''c1'' \<mapsto> ex_class]))
        (run (ControlMessage (ex_control 4 ActionObservableUnsubscribe 4) []
               # [InFlight 0 ''C'', Notify 0 (Next ''C''), Notify 0 Complete])
           (run ex_stream_run (init [''c1'' \<mapsto> ex_class])))) = []
   \<and> filter (carries 4 4) (out (run ex_stream_run (init [''c1'' \<mapsto> ex_class])))
     = [\<lparr>fid = 4, ftype = ResponseActionObservableNext, fbody = Single (BodyNext 4 ''A'')\<rparr>,
        \<lparr>fid = 4, ftype = ResponseActionObservableNext, fbody = Single (BodyNext 4 ''B'')\<rparr>]"
proof -
  let ?s = "run ex_stream_run (init [''c1'' \<mapsto> ex_class])"
  note defs = ex_stream_run_def init_def ex_action_def ex_env_def
    ex_control_def ex_class_def ex_observable_def ex_plain_def handleAction_def loadTypes_def
    unwrapResult_def Let_def catchBlock_def tryBlock_def handleResult_def
    handleObservable_def handle_def handleSubscribe_def rx_subscribe_eq rx_notify_def
  obtain entry where e: "observables ?s 4 = Some entry" "subscriptions entry 4 = Some 0"
    by (simp add: defs)
  have o: "out ?s =
      [announcement 4 observable_type,
       \<lparr>fid = 4, ftype = ResponseActionObservableNext, fbody = Single (BodyNext 4 ''A'')\<rparr>,
       \<lparr>fid = 4, ftype = ResponseActionObservableNext, fbody = Single (BodyNext 4 ''B'')\<rparr>]"
    by (simp add: defs announcement_def)
  have n: "observableSubjects ?s 4 = None"
    by (simp add: defs)
  have d: "distinct (action_ids (ex_stream_run @ [InFlight 0 ''C'', Notify 0 (Next ''C''), Notify 0 Complete]))"
    by (simp add: ex_stream_run_def)
  have 1: "filter (carries 4 4)
     (emitted ?s (run (ControlMessage (ex_control 4 ActionObservableUnsubscribe 4) []
               # [InFlight 0 ''C'', Notify 0 (Next ''C''), Notify 0 Complete]) ?s)) = []"
    using no_frame_after_observable_unsubscribe [OF d e, of
        "ex_control 4 ActionObservableUnsubscribe 4" "[]"] n
    by (simp add: ex_control_def subscribes_def)
  have 2: "filter (carries 4 4) (out ?s)
     = [\<lparr>fid = 4, ftype = ResponseActionObservableNext, fbody = Single (BodyNext 4 ''A'')\<rparr>,
        \<lparr>fid = 4, ftype = ResponseActionObservableNext, fbody = Single (BodyNext 4 ''B'')\<rparr>]"
    by (simp add: o carries_def announcement_def)
  show ?thesis using 1 2 by simp
qed

text \<open>
  The hypothesis on the call id is needed. Call 4 returns a \<^verbatim>\<open>Subject\<close>, to which line 293
  subscribes with callbacks that tag their frames with the call id; the client subscribes
  under the id 4 and unsubscribes, which cancels the client's subscription only. The next
  value of the subject is then written as a \<^verbatim>\<open>ResponseActionObservableNext\<close> frame with
  \<^verbatim>\<open>id: 4\<close>, the frame the cancelled subscription would have written.
\<close>

theorem subject_frame_after_observable_unsubscribe:
  "map_option (\<lambda>e. subscriptions e 4) (observables (run ex_subject_run ex_init) 4)
     = Some (Some 0)
   \<and> rx (run [ControlMessage (ex_control 4 ActionObservableUnsubscribe 4) []]
            (run ex_subject_run ex_init))
     = [\<lparr>observer = SubjectCb 4, closed = False\<rparr>,
        \<lparr>observer = SubscriberCb 4 4 0, closed = True\<rparr>]
   \<and> emitted (run ex_subject_run ex_init)
       (run [ControlMessage (ex_control 4 ActionObservableUnsubscribe 4) [],
             InFlight 1 ''x'', Notify 1 (Next ''x''), Notify 0 (Next ''x'')]
          (run ex_subject_run ex_init))
     = [\<lparr>fid = 4, ftype = ResponseActionObservableNext, fbody = Single (BodyNext 4 ''x'')\<rparr>]
   \<and> carries 4 4
       \<lparr>fid = 4, ftype = ResponseActionObservableNext, fbody = Single (BodyNext 4 ''x'')\<rparr>"
proof -
  note defs = ex_subject_run_def ex_init_def init_def ex_action_def ex_env_def
    ex_control_def ex_class_def ex_subject_def ex_plain_def handleAction_def loadTypes_def
    unwrapResult_def Let_def catchBlock_def tryBlock_def handleResult_def
    handleObservable_def handle_def handleSubscribe_def handleUnsubscribe_def
    rx_subscribe_eq rx_notify_def rx_close_def emitted_def
  have 1: "map_option (\<lambda>e. subscriptions e 4) (observables (run ex_subject_run ex_init) 4)
     = Some (Some 0)"
    by (simp add: defs)
  have 2: "rx (run [ControlMessage (ex_control 4 ActionObservableUnsubscribe 4) []]
            (run ex_subject_run ex_init))
     = [\<lparr>observer = SubjectCb 4, closed = False\<rparr>,
        \<lparr>observer = SubscriberCb 4 4 0, closed = True\<rparr>]"
    by (simp add: defs)
  have 3: "emitted (run ex_subject_run ex_init)
       (run [ControlMessage (ex_control 4 ActionObservableUnsubscribe 4) [],
             InFlight 1 ''x'', Notify 1 (Next ''x''), Notify 0 (Next ''x'')]
          (run ex_subject_run ex_init))
     = [\<lparr>fid = 4, ftype = ResponseActionObservableNext, fbody = Single (BodyNext 4 ''x'')\<rparr>]"
    by (simp add: defs)
  have 4: "carries 4 4
       \<lparr>fid = 4, ftype = ResponseActionObservableNext, fbody = Single (BodyNext 4 ''x'')\<rparr>"
    by (simp add: carries_def)
  show ?thesis using 1 2 3 4 by simp
qed


end
